theory Spec2Isabelle
  imports Complex_Main "HOL-Library.Sublist"
begin

section \<open>Python values and errors\<close>

text \<open>
  The exceptions that the modelled functions of \<^verbatim>\<open>src/seg2map/common.py\<close> can raise.
  A function that can raise returns \<open>py_error + 'a\<close>, with \<open>Inl\<close> for the exception.
\<close>

datatype py_error = IndexError | KeyError | ValueError | ZeroDivisionError
  | OverflowError | OSError | TypeError | Id_Not_Found

text \<open>
  The coordinates of the UTM resolver are exact reals. The matrix rescaler rounds
  to binary64 where the interpreter does, see \<open>round_binary64\<close>.
\<close>

subsection \<open>\<^verbatim>\<open>str\<close> of an integer and \<^verbatim>\<open>int\<close> of a string\<close>

definition digit_char :: "nat \<Rightarrow> char" where
  "digit_char d = ''0123456789'' ! d"

fun str_nat :: "nat \<Rightarrow> string" where
  "str_nat n = (if n < 10 then [digit_char n] else str_nat (n div 10) @ [digit_char (n mod 10)])"

declare str_nat.simps [simp del]

text \<open>\<^verbatim>\<open>str(i)\<close> for a Python int: decimal digits, with a leading minus sign when negative.\<close>

definition str_int :: "int \<Rightarrow> string" where
  "str_int i = (if i < 0 then CHR ''-'' # str_nat (nat (- i)) else str_nat (nat i))"

definition is_digit :: "char \<Rightarrow> bool" where
  "is_digit c = (c \<in> set ''0123456789'')"

definition digit_val :: "char \<Rightarrow> int" where
  "digit_val c = int (of_char c) - 48"

text \<open>
  \<^verbatim>\<open>int(s)\<close> for a string of decimal digits. Every other string is a \<^verbatim>\<open>ValueError\<close>
  here (Python also accepts a sign, surrounding blanks and underscores, none of which
  \<^verbatim>\<open>convert_wgs_to_utm\<close> produces).
\<close>

definition int_of_str :: "string \<Rightarrow> py_error + int" where
  "int_of_str s =
     (if s \<noteq> [] \<and> list_all is_digit s
      then Inr (fold (\<lambda>c a. 10 * a + digit_val c) s 0)
      else Inl ValueError)"

text \<open>
  Python's \<^verbatim>\<open>==\<close> on the two kinds of value that \<^verbatim>\<open>convert_wgs_to_utm\<close> compares:
  an int and a str are never equal.
\<close>

datatype py_scalar = PyInt int | PyStr string

fun py_eq :: "py_scalar \<Rightarrow> py_scalar \<Rightarrow> bool" where
  "py_eq (PyInt a) (PyInt b) = (a = b)"
| "py_eq (PyStr a) (PyStr b) = (a = b)"
| "py_eq (PyInt a) (PyStr b) = False"
| "py_eq (PyStr a) (PyInt b) = False"

text \<open>Indexing a Python sequence: negative indices count from the end.\<close>

definition py_index :: "'a list \<Rightarrow> int \<Rightarrow> py_error + 'a" where
  "py_index xs i =
     (if 0 \<le> i \<and> i < int (length xs) then Inr (xs ! nat i)
      else if i < 0 \<and> - int (length xs) \<le> i then Inr (xs ! nat (int (length xs) + i))
      else Inl IndexError)"


section \<open>The UTM resolver\<close>

text \<open>
  \<^verbatim>\<open>get_center_rectangle(coords)\<close>: the midpoint of the first and the third vertex.
\<close>

definition get_center_rectangle :: "(real \<times> real) list \<Rightarrow> py_error + (real \<times> real)" where
  "get_center_rectangle coords =
     (case py_index coords 0 of Inl e \<Rightarrow> Inl e | Inr p0 \<Rightarrow>
      (case py_index coords 2 of Inl e \<Rightarrow> Inl e | Inr p2 \<Rightarrow>
        Inr ((fst p0 + fst p2) / 2, (snd p0 + snd p2) / 2)))"

text \<open>The zone number \<^verbatim>\<open>(math.floor((lon + 180) / 6) % 60) + 1\<close>.\<close>

definition utm_zone :: "real \<Rightarrow> int" where
  "utm_zone lon = (\<lfloor>(lon + 180) / 6\<rfloor> mod 60) + 1"

text \<open>The test \<^verbatim>\<open>len(utm_band) == "1"\<close> of the padding branch.\<close>

definition pad_test :: "string \<Rightarrow> bool" where
  "pad_test utm_band = py_eq (PyInt (int (length utm_band))) (PyStr ''1'')"

definition convert_wgs_to_utm :: "real \<Rightarrow> real \<Rightarrow> string" where
  "convert_wgs_to_utm lon lat =
     (let utm_band = str_int (utm_zone lon);
          utm_band = (if pad_test utm_band then ''0'' @ utm_band else utm_band)
      in if lat \<ge> 0 then ''326'' @ utm_band else ''327'' @ utm_band)"

text \<open>
  \<^verbatim>\<open>get_epsg_from_geometry(geometry)\<close>; the geometry is given by the coordinates of its
  exterior ring.
\<close>

definition get_epsg_from_geometry :: "(real \<times> real) list \<Rightarrow> py_error + int" where
  "get_epsg_from_geometry rect_coords =
     (case get_center_rectangle rect_coords of Inl e \<Rightarrow> Inl e
      | Inr (center_x, center_y) \<Rightarrow> int_of_str (convert_wgs_to_utm center_x center_y))"

text \<open>The EPSG codes of the UTM zones, north and south.\<close>

definition utm_epsg_codes :: "int set" where
  "utm_epsg_codes = {32601..32660} \<union> {32701..32760}"


section \<open>The matrix rescaler\<close>

text \<open>
  A two-dimensional array is a list of rows. \<^verbatim>\<open>range(n)\<close> is empty for \<open>n \<le> 0\<close>.
\<close>

definition py_range :: "int \<Rightarrow> int list" where
  "py_range n = map int [0..<nat n]"

text \<open>\<^verbatim>\<open>int(x)\<close> of a float truncates towards zero.\<close>

definition py_int :: "real \<Rightarrow> int" where
  "py_int x = (if x \<ge> 0 then \<lfloor>x\<rfloor> else \<lceil>x\<rceil>)"

text \<open>
  A comprehension whose body can raise: the elements are computed from left to
  right and the first exception ends it.
\<close>

fun map_err :: "('a \<Rightarrow> py_error + 'b) \<Rightarrow> 'a list \<Rightarrow> py_error + 'b list" where
  "map_err f [] = Inr []"
| "map_err f (x # xs) =
     (case f x of Inl e \<Rightarrow> Inl e
      | Inr y \<Rightarrow> (case map_err f xs of Inl e \<Rightarrow> Inl e | Inr ys \<Rightarrow> Inr (y # ys)))"

text \<open>\<open>chunk c r xs\<close>: the first \<open>r\<close> consecutive pieces of \<open>xs\<close>, each \<open>c\<close> long.\<close>

fun chunk :: "nat \<Rightarrow> nat \<Rightarrow> 'a list \<Rightarrow> 'a list list" where
  "chunk c 0 xs = []"
| "chunk c (Suc r) xs = take c xs # chunk c r (drop c xs)"

text \<open>
  \<^verbatim>\<open>np.array(tmp).reshape((rows, cols))\<close>: the number of elements must be
  \<open>rows * cols\<close>; one dimension may be \<open>-1\<close>, and is then inferred from the other,
  which must not be \<open>0\<close>; any other negative dimension is a \<^verbatim>\<open>ValueError\<close>.
\<close>

definition reshape :: "'a list list \<Rightarrow> int \<Rightarrow> int \<Rightarrow> py_error + 'a list list" where
  "reshape tmp rows cols =
     (let flat = concat tmp; n = int (length flat) in
      if rows \<ge> 0 \<and> cols \<ge> 0 then
        (if rows * cols = n then Inr (chunk (nat cols) (nat rows) flat) else Inl ValueError)
      else if rows = -1 \<and> cols > 0 \<and> n mod cols = 0 then
        Inr (chunk (nat cols) (nat (n div cols)) flat)
      else if cols = -1 \<and> rows > 0 \<and> n mod rows = 0 then
        Inr (chunk (nat (n div rows)) (nat rows) flat)
      else Inl ValueError)"

text \<open>
  \<^verbatim>\<open>scale(matrix, rows, cols)\<close> with the quotients \<^verbatim>\<open>src_rows * r / rows\<close> and
  \<^verbatim>\<open>src_cols * c / cols\<close> taken exactly; \<open>scale_binary64\<close> below rounds them as the
  interpreter does. The divisions are evaluated only for \<open>r\<close> in \<^verbatim>\<open>range(rows)\<close> and
  \<open>c\<close> in \<^verbatim>\<open>range(cols)\<close>, where the divisor is positive.
\<close>

definition scale :: "'a list list \<Rightarrow> int \<Rightarrow> int \<Rightarrow> py_error + 'a list list" where
  "scale matrix rows cols =
     (let src_rows = int (length matrix) in
      case py_index matrix 0 of Inl e \<Rightarrow> Inl e | Inr row0 \<Rightarrow>
      (let src_cols = int (length row0) in
       case map_err (\<lambda>r.
              map_err (\<lambda>c.
                case py_index matrix (py_int (real_of_int (src_rows * r) / real_of_int rows)) of
                  Inl e \<Rightarrow> Inl e
                | Inr row \<Rightarrow> py_index row (py_int (real_of_int (src_cols * c) / real_of_int cols)))
              (py_range cols))
            (py_range rows) of
         Inl e \<Rightarrow> Inl e
       | Inr tmp \<Rightarrow> reshape tmp rows cols))"

text \<open>A matrix with \<open>R\<close> rows of \<open>C\<close> cells each.\<close>

definition rectangular :: "'a list list \<Rightarrow> nat \<Rightarrow> nat \<Rightarrow> bool" where
  "rectangular matrix R C = (length matrix = R \<and> list_all (\<lambda>row. length row = C) matrix)"

subsection \<open>Binary64 arithmetic\<close>

text \<open>\<^verbatim>\<open>k.bit_length()\<close> of a Python int \<open>k \<ge> 0\<close>.\<close>

function bit_length :: "int \<Rightarrow> nat" where
  "bit_length k = (if k \<le> 0 then 0 else Suc (bit_length (k div 2)))"
  by pat_completeness auto
termination
  by (relation "measure nat") auto

declare bit_length.simps [simp del]

text \<open>Rounding to the nearest integer, a tie to the even one.\<close>

definition rne :: "real \<Rightarrow> int" where
  "rne z = (let f = \<lfloor>z\<rfloor>; d = z - of_int f in
            if d < 1 / 2 then f else if d > 1 / 2 then f + 1 else if even f then f else f + 1)"

text \<open>
  Rounding a real to binary64, to nearest and ties to even, without a largest
  value. Every binary64 number is a multiple of \<open>2 ^ -1074\<close>; in units of that,
  \<open>\<bar>x\<bar>\<close> is \<open>y\<close>, and a \<open>y\<close> of more than 53 bits keeps its leading 53.
\<close>

definition round_binary64 :: "real \<Rightarrow> real" where
  "round_binary64 x =
     (let y = \<bar>x\<bar> * 2 ^ 1074;
          s = bit_length \<lfloor>y\<rfloor> - 53;
          r = of_int (rne (y / 2 ^ s)) * 2 ^ s / 2 ^ 1074
      in if x < 0 then - r else r)"

text \<open>
  \<^verbatim>\<open>a / b\<close> on two Python ints: the correctly rounded quotient; a quotient beyond
  the largest binary64 value is an \<^verbatim>\<open>OverflowError\<close>.
\<close>

definition py_truediv :: "int \<Rightarrow> int \<Rightarrow> py_error + real" where
  "py_truediv a b =
     (if b = 0 then Inl ZeroDivisionError
      else (let q = round_binary64 (real_of_int a / real_of_int b)
            in if \<bar>q\<bar> \<ge> 2 ^ 1024 then Inl OverflowError else Inr q))"

text \<open>
  \<^verbatim>\<open>scale(matrix, rows, cols)\<close> as the interpreter runs it: in
  \<^verbatim>\<open>matrix[int(src_rows * r / rows)][int(src_cols * c / cols)]\<close> the products are
  exact and each quotient is a binary64.
\<close>

definition scale_binary64 :: "'a list list \<Rightarrow> int \<Rightarrow> int \<Rightarrow> py_error + 'a list list" where
  "scale_binary64 matrix rows cols =
     (let src_rows = int (length matrix) in
      case py_index matrix 0 of Inl e \<Rightarrow> Inl e | Inr row0 \<Rightarrow>
      (let src_cols = int (length row0) in
       case map_err (\<lambda>r.
              map_err (\<lambda>c.
                case py_truediv (src_rows * r) rows of Inl e \<Rightarrow> Inl e | Inr qr \<Rightarrow>
                (case py_index matrix (py_int qr) of Inl e \<Rightarrow> Inl e | Inr row \<Rightarrow>
                 (case py_truediv (src_cols * c) cols of Inl e \<Rightarrow> Inl e | Inr qc \<Rightarrow>
                    py_index row (py_int qc))))
              (py_range cols))
            (py_range rows) of
         Inl e \<Rightarrow> Inl e
       | Inr tmp \<Rightarrow> reshape tmp rows cols))"


subsection \<open>Arrays and their arithmetic\<close>

text \<open>
  The values of a numpy \<^verbatim>\<open>float64\<close>: a finite number, an infinity or not-a-number.
  The sign of a zero is not modelled; where a zero divides, it is the positive one.
\<close>

datatype np_float = Fin real | PosInf | NegInf | NaN

text \<open>The binary64 result of an operation whose exact result is \<open>x\<close>.\<close>

definition np_round :: "real \<Rightarrow> np_float" where
  "np_round x =
     (let r = round_binary64 x
      in if r \<ge> 2 ^ 1024 then PosInf else if r \<le> - (2 ^ 1024) then NegInf else Fin r)"

fun np_neg :: "np_float \<Rightarrow> np_float" where
  "np_neg (Fin a) = Fin (- a)"
| "np_neg PosInf = NegInf"
| "np_neg NegInf = PosInf"
| "np_neg NaN = NaN"

fun np_sgn :: "np_float \<Rightarrow> int" where
  "np_sgn (Fin a) = (if a > 0 then 1 else if a < 0 then - 1 else 0)"
| "np_sgn PosInf = 1"
| "np_sgn NegInf = - 1"
| "np_sgn NaN = 0"

fun np_add :: "np_float \<Rightarrow> np_float \<Rightarrow> np_float" where
  "np_add (Fin a) (Fin b) = np_round (a + b)"
| "np_add NaN y = NaN"
| "np_add x NaN = NaN"
| "np_add PosInf NegInf = NaN"
| "np_add NegInf PosInf = NaN"
| "np_add PosInf y = PosInf"
| "np_add x PosInf = PosInf"
| "np_add NegInf y = NegInf"
| "np_add x NegInf = NegInf"

definition np_sub :: "np_float \<Rightarrow> np_float \<Rightarrow> np_float" where
  "np_sub x y = np_add x (np_neg y)"

fun np_mul :: "np_float \<Rightarrow> np_float \<Rightarrow> np_float" where
  "np_mul (Fin a) (Fin b) = np_round (a * b)"
| "np_mul NaN y = NaN"
| "np_mul x NaN = NaN"
| "np_mul x y =
     (if np_sgn x * np_sgn y = 0 then NaN
      else if np_sgn x * np_sgn y > 0 then PosInf else NegInf)"

fun np_div :: "np_float \<Rightarrow> np_float \<Rightarrow> np_float" where
  "np_div (Fin a) (Fin b) =
     (if b \<noteq> 0 then np_round (a / b)
      else if a = 0 then NaN else if a > 0 then PosInf else NegInf)"
| "np_div NaN y = NaN"
| "np_div x NaN = NaN"
| "np_div (Fin a) y = Fin 0"
| "np_div x (Fin b) = (if np_sgn x * (if b < 0 then - 1 else 1) > 0 then PosInf else NegInf)"
| "np_div x y = NaN"

fun np_less :: "np_float \<Rightarrow> np_float \<Rightarrow> bool" where
  "np_less (Fin a) (Fin b) = (a < b)"
| "np_less NaN y = False"
| "np_less x NaN = False"
| "np_less x NegInf = False"
| "np_less PosInf y = False"
| "np_less x y = True"

text \<open>
  An array, flattened: of an integer dtype, signed or not and with a number of
  bits, or of dtype \<^verbatim>\<open>float64\<close>. A Python number is an int or a float.
\<close>

datatype ndarray = IntArray bool nat "int list" | FloatArray "np_float list"

datatype py_number = IntNum int | FloatNum np_float

definition dtype_range :: "bool \<Rightarrow> nat \<Rightarrow> int \<Rightarrow> bool" where
  "dtype_range sg w k =
     (if sg then - (2 ^ (w - 1)) \<le> k \<and> k < 2 ^ (w - 1) else 0 \<le> k \<and> k < 2 ^ w)"

text \<open>Integer arithmetic of a dtype keeps the low bits of the exact result.\<close>

definition wrap_int :: "bool \<Rightarrow> nat \<Rightarrow> int \<Rightarrow> int" where
  "wrap_int sg w k =
     (if sg then (k + 2 ^ (w - 1)) mod 2 ^ w - 2 ^ (w - 1) else k mod 2 ^ w)"

definition int_to_float64 :: "int \<Rightarrow> np_float" where
  "int_to_float64 k = np_round (of_int k)"

text \<open>
  A Python number where a binary64 is needed: an int too large for one is an
  \<^verbatim>\<open>OverflowError\<close>.
\<close>

definition python_float :: "py_number \<Rightarrow> py_error + np_float" where
  "python_float x =
     (case x of
        IntNum k \<Rightarrow> (case np_round (of_int k) of Fin r \<Rightarrow> Inr (Fin r) | _ \<Rightarrow> Inl OverflowError)
      | FloatNum f \<Rightarrow> Inr f)"

text \<open>\<^verbatim>\<open>x - y\<close> on Python numbers: exact on two ints, in binary64 otherwise.\<close>

definition py_sub :: "py_number \<Rightarrow> py_number \<Rightarrow> py_error + py_number" where
  "py_sub x y =
     (case (x, y) of
        (IntNum a, IntNum b) \<Rightarrow> Inr (IntNum (a - b))
      | _ \<Rightarrow> (case python_float x of Inl e \<Rightarrow> Inl e | Inr fx \<Rightarrow>
               (case python_float y of Inl e \<Rightarrow> Inl e | Inr fy \<Rightarrow>
                  Inr (FloatNum (np_sub fx fy)))))"

text \<open>
  The builtins \<^verbatim>\<open>min\<close> and \<^verbatim>\<open>max\<close> over a sequence: a \<^verbatim>\<open>ValueError\<close> when it is
  empty, otherwise one pass that keeps the first extremal element.
\<close>

definition py_min :: "('a \<Rightarrow> 'a \<Rightarrow> bool) \<Rightarrow> 'a list \<Rightarrow> py_error + 'a" where
  "py_min lt xs = (case xs of [] \<Rightarrow> Inl ValueError
                   | x # rest \<Rightarrow> Inr (fold (\<lambda>y m. if lt y m then y else m) rest x))"

definition py_max :: "('a \<Rightarrow> 'a \<Rightarrow> bool) \<Rightarrow> 'a list \<Rightarrow> py_error + 'a" where
  "py_max lt xs = (case xs of [] \<Rightarrow> Inl ValueError
                   | x # rest \<Rightarrow> Inr (fold (\<lambda>y m. if lt m y then y else m) rest x))"

text \<open>
  \<^verbatim>\<open>rescale_array(dat, mn, mx)\<close>, that is \<^verbatim>\<open>(mx - mn) * (dat - m) / (M - m) + mn\<close>,
  elementwise. On an integer array \<^verbatim>\<open>dat - m\<close>, \<^verbatim>\<open>M - m\<close> and the product with an int
  \<^verbatim>\<open>mx - mn\<close> stay in the dtype of the array and wrap; the division converts both
  sides to binary64. An int \<^verbatim>\<open>mx - mn\<close> outside the range of the dtype is an
  \<^verbatim>\<open>OverflowError\<close> (as of NumPy 2; earlier versions widen the dtype instead). On
  a \<^verbatim>\<open>float64\<close> array every operation is in binary64.
\<close>

definition rescale_array :: "ndarray \<Rightarrow> py_number \<Rightarrow> py_number \<Rightarrow> py_error + np_float list" where
  "rescale_array dat mn mx =
     (case dat of
        IntArray sg w xs \<Rightarrow>
          (case py_min (<) xs of Inl e \<Rightarrow> Inl e | Inr m \<Rightarrow>
          (case py_max (<) xs of Inl e \<Rightarrow> Inl e | Inr M \<Rightarrow>
          (case py_sub mx mn of Inl e \<Rightarrow> Inl e | Inr s \<Rightarrow>
          (let d = map (\<lambda>v. wrap_int sg w (v - m)) xs in
           case (case s of
                   IntNum k \<Rightarrow>
                     if dtype_range sg w k
                     then Inr (map (\<lambda>x. int_to_float64 (wrap_int sg w (k * x))) d)
                     else Inl OverflowError
                 | FloatNum f \<Rightarrow> Inr (map (\<lambda>x. np_mul f (int_to_float64 x)) d)) of
             Inl e \<Rightarrow> Inl e
           | Inr p \<Rightarrow>
              (let q = map (\<lambda>y. np_div y (int_to_float64 (wrap_int sg w (M - m)))) p in
               case python_float mn of Inl e \<Rightarrow> Inl e
               | Inr a \<Rightarrow> Inr (map (\<lambda>y. np_add y a) q))))))
      | FloatArray xs \<Rightarrow>
          (case py_min np_less xs of Inl e \<Rightarrow> Inl e | Inr m \<Rightarrow>
          (case py_max np_less xs of Inl e \<Rightarrow> Inl e | Inr M \<Rightarrow>
          (case py_sub mx mn of Inl e \<Rightarrow> Inl e | Inr s \<Rightarrow>
          (let d = map (\<lambda>v. np_sub v m) xs in
           case python_float s of Inl e \<Rightarrow> Inl e
           | Inr f \<Rightarrow>
              (let p = map (\<lambda>x. np_mul f x) d;
                   q = map (\<lambda>y. np_div y (np_sub M m)) p in
               case python_float mn of Inl e \<Rightarrow> Inl e
               | Inr a \<Rightarrow> Inr (map (\<lambda>y. np_add y a) q)))))))"


section \<open>The configuration assembler\<close>

text \<open>
  JSON-style Python values. A \<^verbatim>\<open>dict\<close> is the list of its items in insertion order.
\<close>

datatype pyval = PNone | PBool bool | PInt int | PFloat real | PStr string
  | PList "pyval list" | PDict "(string \<times> pyval) list"

definition dict_get :: "('k \<times> 'v) list \<Rightarrow> 'k \<Rightarrow> 'v option" where
  "dict_get d k = map_of d k"

definition dict_keys :: "('k \<times> 'v) list \<Rightarrow> 'k list" where
  "dict_keys d = map fst d"

text \<open>
  \<^verbatim>\<open>d[k] = v\<close>: a key that is present keeps its position and takes the new value, a
  new key is added at the end.
\<close>

definition dict_set :: "('k \<times> 'v) list \<Rightarrow> 'k \<Rightarrow> 'v \<Rightarrow> ('k \<times> 'v) list" where
  "dict_set d k v =
     (if k \<in> set (map fst d)
      then map (\<lambda>(k', v'). if k' = k then (k', v) else (k', v')) d
      else d @ [(k, v)])"

definition create_json_config ::
  "(string \<times> pyval) list \<Rightarrow> (string \<times> pyval) list \<Rightarrow> (string \<times> pyval) list" where
  "create_json_config inputs settings =
     (let roi_ids = dict_keys inputs;
          config = inputs;
          config = dict_set config ''roi_ids'' (PList (map PStr roi_ids));
          config = dict_set config ''settings'' (PDict settings)
      in config)"


section \<open>Geometry collections\<close>

text \<open>
  A data frame: the row labels and the named columns, each column holding one
  cell per row. It is \<^verbatim>\<open>empty\<close> when one of its two axes has length 0.
\<close>

record geodataframe =
  gdf_index :: "nat list"
  gdf_columns :: "(string \<times> pyval list) list"

definition gdf_empty :: "geodataframe \<Rightarrow> bool" where
  "gdf_empty gdf = (gdf_index gdf = [] \<or> gdf_columns gdf = [])"

definition filter_mask :: "bool list \<Rightarrow> 'a list \<Rightarrow> 'a list" where
  "filter_mask keep xs = map snd (filter fst (zip keep xs))"

text \<open>\<^verbatim>\<open>gdf[mask]\<close>: the rows at which the boolean mask holds.\<close>

definition select_rows :: "bool list \<Rightarrow> geodataframe \<Rightarrow> geodataframe" where
  "select_rows keep gdf =
     gdf\<lparr>gdf_index := filter_mask keep (gdf_index gdf),
         gdf_columns := map (\<lambda>(name, col). (name, filter_mask keep col)) (gdf_columns gdf)\<rparr>"

text \<open>
  \<^verbatim>\<open>extract_roi_by_id(gdf, roi_id)\<close>. The builtin \<^verbatim>\<open>str\<close> is the parameter \<open>py_str\<close>.
\<close>

definition extract_roi_by_id ::
  "(pyval \<Rightarrow> string) \<Rightarrow> geodataframe \<Rightarrow> pyval \<Rightarrow> py_error + geodataframe" where
  "extract_roi_by_id py_str gdf roi_id =
     (case (if roi_id = PNone then Inr gdf
            else (case dict_get (gdf_columns gdf) ''id'' of
                    None \<Rightarrow> Inl KeyError
                  | Some ids \<Rightarrow> Inr (select_rows (map (\<lambda>v. py_str v = py_str roi_id) ids) gdf))) of
        Inl e \<Rightarrow> Inl e
      | Inr single_roi \<Rightarrow> if gdf_empty single_roi then Inl Id_Not_Found else Inr single_roi)"


section \<open>Saving a configuration\<close>

text \<open>The argument of \<^verbatim>\<open>config_to_file\<close>: any Python value, or a geometry collection.\<close>

datatype py_object = Value pyval | GeoDataFrame geodataframe

fun isinstance_dict :: "py_object \<Rightarrow> bool" where
  "isinstance_dict (Value (PDict d)) = True"
| "isinstance_dict _ = False"

fun isinstance_gdf :: "py_object \<Rightarrow> bool" where
  "isinstance_gdf (GeoDataFrame g) = True"
| "isinstance_gdf _ = False"

text \<open>
  What the function can change: the contents of the files, by path, and the
  records passed to the logger.
\<close>

record io_state =
  file_contents :: "string \<rightharpoonup> string"
  log_records :: "string list"

text \<open>
  The library calls, as parameters: \<^verbatim>\<open>os.path.abspath\<close>; whether \<^verbatim>\<open>open(path, "w")\<close>
  succeeds; the text \<^verbatim>\<open>json.dump\<close> writes and the exception it may end with; the effect
  of \<^verbatim>\<open>GeoDataFrame.to_file\<close> on the files; \<^verbatim>\<open>str\<close> of a data frame.
\<close>

record library =
  abspath :: "string \<Rightarrow> string"
  can_open :: "string \<Rightarrow> bool"
  json_dump :: "pyval \<Rightarrow> py_error option \<times> string"
  gdf_to_file :: "geodataframe \<Rightarrow> string \<Rightarrow> (string \<rightharpoonup> string) \<Rightarrow> py_error option \<times> (string \<rightharpoonup> string)"
  gdf_str :: "geodataframe \<Rightarrow> string"

text \<open>\<^verbatim>\<open>os.path.join(a, b)\<close> on POSIX paths.\<close>

definition os_path_join :: "string \<Rightarrow> string \<Rightarrow> string" where
  "os_path_join a b =
     (if b \<noteq> [] \<and> hd b = CHR ''/'' then b
      else if a = [] \<or> last a = CHR ''/'' then a @ b
      else a @ ''/'' @ b)"

definition write_to_json ::
  "library \<Rightarrow> string \<Rightarrow> pyval \<Rightarrow> io_state \<Rightarrow> py_error option \<times> io_state" where
  "write_to_json lib filepath settings st =
     (if \<not> can_open lib filepath then (Some OSError, st)
      else (case json_dump lib settings of
              (err, written) \<Rightarrow>
                (err, st\<lparr>file_contents := (file_contents st)(filepath \<mapsto> written)\<rparr>)))"

definition config_to_file ::
  "library \<Rightarrow> py_object \<Rightarrow> string \<Rightarrow> io_state \<Rightarrow> py_error option \<times> io_state" where
  "config_to_file lib config file_path st =
     (if isinstance_dict config then
        (let filename = ''config.json'';
             save_path = abspath lib (os_path_join file_path filename)
         in case write_to_json lib save_path (case config of Value v \<Rightarrow> v) st of
              (Some e, st') \<Rightarrow> (Some e, st')
            | (None, st') \<Rightarrow>
                (None, st'\<lparr>log_records := log_records st' @
                   [''Saved config json: '' @ filename @ '' '' @ [CHR 0x0A] @ ''Saved to '' @ save_path]\<rparr>))
      else if isinstance_gdf config then
        (let filename = ''config_gdf.geojson'';
             save_path = abspath lib (os_path_join file_path filename);
             g = (case config of GeoDataFrame g \<Rightarrow> g);
             st' = st\<lparr>log_records := log_records st @
                   [''Saving config gdf:'' @ gdf_str lib g @ '' '' @ [CHR 0x0A] @ ''Saved to '' @ save_path]\<rparr>
         in case gdf_to_file lib g save_path (file_contents st') of
              (err, fc) \<Rightarrow> (err, st'\<lparr>file_contents := fc\<rparr>))
      else (None, st))"


section \<open>Removing empty directories\<close>

text \<open>
  A path is the list of its components, below a base directory that always
  exists (the file-system root for an absolute path, the working directory for a
  relative one). The file system is the list of its directories and the list of
  its plain files, each in the order in which a listing shows them; \<open>rmdir_log\<close>
  records the directories removed, in the order of their removal.
\<close>

type_synonym path = "string list"

record file_system =
  fs_dirs :: "path list"
  fs_files :: "path list"
  rmdir_log :: "path list"

definition is_dir :: "file_system \<Rightarrow> path \<Rightarrow> bool" where
  "is_dir fs p = (p = [] \<or> p \<in> set (fs_dirs fs))"

text \<open>The subdirectories of \<open>p\<close>, and all entries of \<open>p\<close>, as full paths.\<close>

definition child_dirs :: "file_system \<Rightarrow> path \<Rightarrow> path list" where
  "child_dirs fs p = filter (\<lambda>q. q \<noteq> [] \<and> butlast q = p) (fs_dirs fs)"

definition entries :: "file_system \<Rightarrow> path \<Rightarrow> path list" where
  "entries fs p = filter (\<lambda>q. q \<noteq> [] \<and> butlast q = p) (fs_dirs fs @ fs_files fs)"

text \<open>\<^verbatim>\<open>os.listdir(p)\<close>: the names of the entries; an \<^verbatim>\<open>OSError\<close> when \<open>p\<close> is no directory.\<close>

definition listdir :: "file_system \<Rightarrow> path \<Rightarrow> py_error + string list" where
  "listdir fs p = (if is_dir fs p then Inr (map last (entries fs p)) else Inl OSError)"

text \<open>
  \<^verbatim>\<open>os.rmdir(p)\<close>: removes a directory that exists and has no entry, and is an
  \<^verbatim>\<open>OSError\<close> otherwise; the base directory cannot be removed.
\<close>

definition rmdir :: "file_system \<Rightarrow> path \<Rightarrow> py_error + file_system" where
  "rmdir fs p =
     (if p \<noteq> [] \<and> p \<in> set (fs_dirs fs) \<and> entries fs p = []
      then Inr (fs\<lparr>fs_dirs := removeAll p (fs_dirs fs), rmdir_log := rmdir_log fs @ [p]\<rparr>)
      else Inl OSError)"

text \<open>
  The loop of \<^verbatim>\<open>os.removedirs\<close>: remove the parent named in the path, then its
  parent, until a removal fails or the path is used up.
\<close>

function prune :: "file_system \<Rightarrow> path \<Rightarrow> file_system" where
  "prune fs head =
     (if head = [] then fs
      else (case rmdir fs head of Inl e \<Rightarrow> fs | Inr fs' \<Rightarrow> prune fs' (butlast head)))"
  by pat_completeness auto
termination
  by (relation "measure (\<lambda>(fs, head). length head)") auto

declare prune.simps [simp del]

text \<open>
  \<^verbatim>\<open>os.removedirs(name)\<close>: the leaf must be removable, the parents are pruned as
  far as they are empty.
\<close>

definition removedirs :: "file_system \<Rightarrow> path \<Rightarrow> py_error option \<times> file_system" where
  "removedirs fs name =
     (case rmdir fs name of Inl e \<Rightarrow> (Some e, fs)
      | Inr fs' \<Rightarrow> (None, prune fs' (butlast name)))"

text \<open>
  \<^verbatim>\<open>get_subdirs\<close>: \<^verbatim>\<open>os.walk\<close> visits a directory, whose subdirectories the loop
  records, and then each of these subdirectories in turn; a path that is no
  directory yields nothing.
\<close>

function walk_subdirs :: "file_system \<Rightarrow> path \<Rightarrow> path list" where
  "walk_subdirs fs top_dir =
     (if \<not> is_dir fs top_dir then []
      else child_dirs fs top_dir @ concat (map (walk_subdirs fs) (child_dirs fs top_dir)))"
  by pat_completeness auto
termination
proof (relation "measure (\<lambda>(fs, top_dir). length (filter (strict_prefix top_dir) (fs_dirs fs)))")
  show "wf (measure (\<lambda>(fs, top_dir). length (filter (strict_prefix top_dir) (fs_dirs fs))))"
    by simp
next
  fix fs :: file_system and top_dir q :: path
  assume "q \<in> set (child_dirs fs top_dir)"
  then have q: "q \<in> set (fs_dirs fs)" "q \<noteq> []" "butlast q = top_dir"
    by (auto simp: child_dirs_def)
  then have "q = top_dir @ [last q]"
    by (metis append_butlast_last_id)
  then have tq: "strict_prefix top_dir q"
    by (metis append_Nil2 not_Cons_self2 prefixI same_append_eq strict_prefix_def)
  have "filter (strict_prefix q) (fs_dirs fs) =
      filter (strict_prefix q) (filter (strict_prefix top_dir) (fs_dirs fs))"
    using tq by (auto simp: filter_filter intro!: filter_cong dest: prefix_order.less_trans)
  moreover have "length (filter (strict_prefix q) (filter (strict_prefix top_dir) (fs_dirs fs)))
      < length (filter (strict_prefix top_dir) (fs_dirs fs))"
    using q(1) tq by (intro length_filter_less [of q]) auto
  ultimately show "((fs, q), (fs, top_dir)) \<in>
      measure (\<lambda>(fs, top_dir). length (filter (strict_prefix top_dir) (fs_dirs fs)))"
    by simp
qed

declare walk_subdirs.simps [simp del]

definition get_subdirs :: "file_system \<Rightarrow> path \<Rightarrow> path list" where
  "get_subdirs fs parent_dir = walk_subdirs fs parent_dir"

text \<open>A comprehension with a condition that can raise.\<close>

fun filter_err :: "('a \<Rightarrow> py_error + bool) \<Rightarrow> 'a list \<Rightarrow> py_error + 'a list" where
  "filter_err f [] = Inr []"
| "filter_err f (x # xs) =
     (case f x of Inl e \<Rightarrow> Inl e
      | Inr b \<Rightarrow> (case filter_err f xs of Inl e \<Rightarrow> Inl e
                 | Inr ys \<Rightarrow> Inr (if b then x # ys else ys)))"

text \<open>The loop \<^verbatim>\<open>for remove_dir in remove_dirs: os.removedirs(remove_dir)\<close>.\<close>

fun remove_each :: "file_system \<Rightarrow> path list \<Rightarrow> py_error option \<times> file_system" where
  "remove_each fs [] = (None, fs)"
| "remove_each fs (remove_dir # rest) =
     (case removedirs fs remove_dir of
        (Some e, fs') \<Rightarrow> (Some e, fs')
      | (None, fs') \<Rightarrow> remove_each fs' rest)"

definition delete_empty_dirs :: "file_system \<Rightarrow> path \<Rightarrow> py_error option \<times> file_system" where
  "delete_empty_dirs fs dir_path =
     (let subdirs = get_subdirs fs dir_path in
      case filter_err (\<lambda>subdir. case listdir fs subdir of Inl e \<Rightarrow> Inl e
                                | Inr names \<Rightarrow> Inr (length names = 0)) subdirs of
        Inl e \<Rightarrow> (Some e, fs)
      | Inr remove_dirs \<Rightarrow> remove_each fs remove_dirs)"

text \<open>
  A well-formed file system: no path is listed twice or both as a directory and
  as a file, the base directory is not listed, and the parent of every entry is a
  directory.
\<close>

definition wf_fs :: "file_system \<Rightarrow> bool" where
  "wf_fs fs =
     (distinct (fs_dirs fs @ fs_files fs) \<and> [] \<notin> set (fs_dirs fs @ fs_files fs) \<and>
      list_all (\<lambda>p. is_dir fs (butlast p)) (fs_dirs fs @ fs_files fs))"


section \<open>Properties of the UTM resolver\<close>

lemma utm_zone_range: "1 \<le> utm_zone lon \<and> utm_zone lon \<le> 60"
  by (simp add: utm_zone_def)

lemma str_nat_digit: "n < 10 \<Longrightarrow> str_nat n = [digit_char n]"
  by (simp add: str_nat.simps)

lemma pad_test_False: "\<not> pad_test utm_band"
  by (simp add: pad_test_def)

lemma digit_char_nonzero:
  assumes "0 < d" "d < 10"
  shows "digit_char d \<noteq> CHR ''0''"
proof -
  from assms have "d \<in> {1, 2, 3, 4, 5, 6, 7, 8, 9}"
    by auto
  then show ?thesis
    by (auto simp: digit_char_def)
qed

text \<open>
  Claim C1. For every rectangle whose centre has a longitude in \<open>[-180, 180)\<close> and a
  latitude in \<open>[-90, 90]\<close>, \<^verbatim>\<open>get_epsg_from_geometry\<close> returns a code in
  \<open>{32601..32660} \<union> {32701..32760}\<close>. The code does not: the test
  \<^verbatim>\<open>len(utm_band) == "1"\<close> compares an int with a str, so zones 1 to 9 are never
  padded. The rectangle with the corners \<open>(-180, 0)\<close> and \<open>(-178, 2)\<close> has its centre
  at \<open>(-179, 1)\<close>, in zone 1 north, whose code is 32601; the function returns 3261.
\<close>

theorem get_epsg_from_geometry_zone_1:
  "get_epsg_from_geometry [(-180, 0), (-178, 0), (-178, 2), (-180, 2), (-180, 0)] = Inr 3261 \<and>
   3261 \<notin> utm_epsg_codes"
  by (simp add: get_epsg_from_geometry_def get_center_rectangle_def py_index_def
      convert_wgs_to_utm_def utm_zone_def str_int_def str_nat.simps digit_char_def pad_test_def
      int_of_str_def is_digit_def digit_val_def utm_epsg_codes_def)

text \<open>
  Claim C2. In \<^verbatim>\<open>convert_wgs_to_utm\<close> the zero-padding branch is never taken: for a
  longitude in one of the zones 1 to 9 the result is the hemisphere prefix followed by
  the single digit of the zone, which is not \<open>0\<close>.
\<close>

theorem convert_wgs_to_utm_never_pads:
  assumes "1 \<le> utm_zone lon" "utm_zone lon \<le> 9"
  shows "\<not> pad_test (str_int (utm_zone lon)) \<and>
     convert_wgs_to_utm lon lat =
       (if lat \<ge> 0 then ''326'' else ''327'') @ [digit_char (nat (utm_zone lon))] \<and>
     digit_char (nat (utm_zone lon)) \<noteq> CHR ''0''"
proof -
  from assms have d: "0 < nat (utm_zone lon)" "nat (utm_zone lon) < 10"
    by simp_all
  have "str_int (utm_zone lon) = [digit_char (nat (utm_zone lon))]"
    using assms d by (simp add: str_int_def str_nat_digit)
  then have "convert_wgs_to_utm lon lat =
       (if lat \<ge> 0 then ''326'' else ''327'') @ [digit_char (nat (utm_zone lon))]"
    by (simp add: convert_wgs_to_utm_def pad_test_False)
  with d show ?thesis
    by (simp add: pad_test_False digit_char_nonzero)
qed

text \<open>The longitude \<open>-179\<close> lies in zone 1: the code string has four characters.\<close>

theorem convert_wgs_to_utm_never_pads_witness:
  "1 \<le> utm_zone (-179) \<and> utm_zone (-179) \<le> 9 \<and>
   \<not> pad_test (str_int (utm_zone (-179))) \<and> convert_wgs_to_utm (-179) 1 = ''3261''"
proof -
  have h1: "1 \<le> utm_zone (-179)" and h2: "utm_zone (-179) \<le> 9" and z: "utm_zone (-179) = 1"
    by (simp_all add: utm_zone_def)
  show ?thesis
    using h1 h2 convert_wgs_to_utm_never_pads [OF h1 h2, of 1] by (simp add: z digit_char_def)
qed

lemma digit_val_digit_char: "d < 10 \<Longrightarrow> digit_val (digit_char d) = int d \<and> is_digit (digit_char d)"
proof -
  assume "d < 10"
  then have "d \<in> {0, 1, 2, 3, 4, 5, 6, 7, 8, 9}"
    by auto
  then show ?thesis
    by (auto simp: digit_char_def digit_val_def is_digit_def)
qed

lemma str_nat_two_digits:
  assumes "10 \<le> n" "n < 100"
  shows "str_nat n = [digit_char (n div 10), digit_char (n mod 10)]"
proof -
  have "n div 10 < 10" using assms by simp
  then show ?thesis
    using assms by (simp add: str_nat.simps [of n] str_nat_digit)
qed

text \<open>
  In the zones 10 to 60 nothing has to be padded, and the code is that of the zone.
\<close>

lemma convert_wgs_to_utm_two_digit_zone:
  assumes "10 \<le> utm_zone lon"
  shows "int_of_str (convert_wgs_to_utm lon lat) = Inr ((if lat \<ge> 0 then 32600 else 32700) + utm_zone lon)"
proof -
  from assms obtain n where z: "utm_zone lon = int n"
    by (metis nonneg_int_cases order_trans zero_le_numeral)
  have n: "10 \<le> n" "n < 100"
    using assms utm_zone_range [of lon] by (simp_all add: z)
  then have d: "n div 10 < 10" "n mod 10 < 10"
    by simp_all
  have s: "str_int (int n) = [digit_char (n div 10), digit_char (n mod 10)]"
    using n by (simp add: str_int_def str_nat_two_digits)
  have "int (n div 10) * 10 + int (n mod 10) = int n"
    by (simp add: zdiv_int zmod_int)
  then show ?thesis
    using digit_val_digit_char [OF d(1)] digit_val_digit_char [OF d(2)]
    by (simp add: convert_wgs_to_utm_def pad_test_False s int_of_str_def z)
      (simp_all add: is_digit_def digit_val_def)
qed


section \<open>Properties of the matrix rescaler\<close>

lemma map_err_Inr: "(\<And>x. x \<in> set xs \<Longrightarrow> f x = Inr (g x)) \<Longrightarrow> map_err f xs = Inr (map g xs)"
  by (induction xs) auto

lemma chunk_concat:
  "length tmp = r \<Longrightarrow> list_all (\<lambda>row. length row = c) tmp \<Longrightarrow> chunk c r (concat tmp) = tmp"
  by (induction tmp arbitrary: r) auto

lemma length_concat_rect:
  "list_all (\<lambda>row. length row = c) tmp \<Longrightarrow> length (concat tmp) = length tmp * c"
  by (induction tmp) auto

lemma reshape_id:
  "rows > 0 \<Longrightarrow> cols > 0 \<Longrightarrow> length tmp = nat rows \<Longrightarrow>
   list_all (\<lambda>row. length row = nat cols) tmp \<Longrightarrow> reshape tmp rows cols = Inr tmp"
  by (simp add: reshape_def Let_def chunk_concat length_concat_rect)

lemma idx_bound:
  assumes "0 \<le> r" "r < rows" "0 < (n::int)"
  shows "n * r div rows < n"
proof -
  have "real_of_int (n * r) / real_of_int rows < real_of_int n"
    using assms by (simp add: pos_divide_less_eq)
  then have "\<lfloor>real_of_int (n * r) / real_of_int rows\<rfloor> < n"
    by (simp add: floor_less_iff)
  then show ?thesis
    by (simp only: floor_divide_of_int_eq)
qed

lemma py_int_div: "0 \<le> a \<Longrightarrow> 0 < b \<Longrightarrow> py_int (real_of_int a / real_of_int b) = a div b"
  by (simp add: py_int_def floor_divide_of_int_eq)

lemma py_index_in_range: "0 \<le> i \<Longrightarrow> i < int (length xs) \<Longrightarrow> py_index xs i = Inr (xs ! nat i)"
  by (simp add: py_index_def)

lemma scale_cell:
  assumes "matrix \<noteq> []" "list_all (\<lambda>row. length row = C) matrix" "0 < C"
    and "0 \<le> r" "r < rows" "0 \<le> c" "c < cols"
  shows "(case py_index matrix (py_int (real_of_int (int (length matrix) * r) / real_of_int rows)) of
            Inl e \<Rightarrow> Inl e
          | Inr row \<Rightarrow> py_index row (py_int (real_of_int (int C * c) / real_of_int cols)))
         = Inr (matrix ! nat (int (length matrix) * r div rows) ! nat (int C * c div cols))"
proof -
  let ?i = "int (length matrix) * r div rows"
  let ?j = "int C * c div cols"
  have i: "0 \<le> ?i" "?i < int (length matrix)"
    using assms by (simp_all add: idx_bound pos_imp_zdiv_nonneg_iff)
  have j: "0 \<le> ?j" "?j < int C"
    using assms by (simp_all add: idx_bound pos_imp_zdiv_nonneg_iff)
  have "matrix ! nat ?i \<in> set matrix"
    using i by (simp add: nat_less_iff)
  then have len: "length (matrix ! nat ?i) = C"
    using assms(2) by (simp add: list_all_iff)
  have e1: "py_int (real_of_int (int (length matrix) * r) / real_of_int rows) = ?i"
    using assms by (intro py_int_div) auto
  have e2: "py_int (real_of_int (int C * c) / real_of_int cols) = ?j"
    using assms by (intro py_int_div) auto
  have r1: "py_index matrix ?i = Inr (matrix ! nat ?i)"
    using i by (rule py_index_in_range)
  have r2: "py_index (matrix ! nat ?i) ?j = Inr (matrix ! nat ?i ! nat ?j)"
    using j len by (intro py_index_in_range) auto
  show ?thesis
    by (simp only: e1 e2 r1 r2 sum.case)
qed

lemma scale_cells:
  assumes "matrix \<noteq> []" "list_all (\<lambda>row. length row = C) matrix" "0 < C"
    and "0 < rows" "0 < cols"
  shows "scale matrix rows cols =
     Inr (map (\<lambda>r. map (\<lambda>c. matrix ! nat (int (length matrix) * r div rows) ! nat (int C * c div cols))
                 (py_range cols)) (py_range rows))"
proof -
  have row0: "py_index matrix 0 = Inr (matrix ! 0)"
    using assms(1) by (simp add: py_index_def)
  have "matrix ! 0 \<in> set matrix"
    using assms(1) by simp
  then have len0: "length (matrix ! 0) = C"
    using assms(2) by (simp add: list_all_iff)
  let ?g = "\<lambda>r c. matrix ! nat (int (length matrix) * r div rows) ! nat (int C * c div cols)"
  have inner: "map_err (\<lambda>c.
                case py_index matrix (py_int (real_of_int (int (length matrix) * r) / real_of_int rows)) of
                  Inl e \<Rightarrow> Inl e
                | Inr row \<Rightarrow> py_index row (py_int (real_of_int (int C * c) / real_of_int cols)))
              (py_range cols) = Inr (map (?g r) (py_range cols))"
    if "r \<in> set (py_range rows)" for r
  proof (rule map_err_Inr)
    fix c assume "c \<in> set (py_range cols)"
    then have "0 \<le> c" "c < cols" by (auto simp: py_range_def)
    moreover from that have "0 \<le> r" "r < rows" by (auto simp: py_range_def)
    ultimately show "(case py_index matrix (py_int (real_of_int (int (length matrix) * r) / real_of_int rows)) of
                  Inl e \<Rightarrow> Inl e
                | Inr row \<Rightarrow> py_index row (py_int (real_of_int (int C * c) / real_of_int cols)))
        = Inr (?g r c)"
      using assms by (intro scale_cell) auto
  qed
  have outer: "map_err (\<lambda>r. map_err (\<lambda>c.
                case py_index matrix (py_int (real_of_int (int (length matrix) * r) / real_of_int rows)) of
                  Inl e \<Rightarrow> Inl e
                | Inr row \<Rightarrow> py_index row (py_int (real_of_int (int C * c) / real_of_int cols)))
              (py_range cols)) (py_range rows)
        = Inr (map (\<lambda>r. map (?g r) (py_range cols)) (py_range rows))"
    by (rule map_err_Inr) (rule inner)
  have resh: "reshape (map (\<lambda>r. map (?g r) (py_range cols)) (py_range rows)) rows cols
        = Inr (map (\<lambda>r. map (?g r) (py_range cols)) (py_range rows))"
    using assms by (intro reshape_id) (simp_all add: py_range_def list_all_iff)
  show ?thesis
    by (simp only: scale_def Let_def row0 len0 outer resh sum.case)
qed

text \<open>Below: the bits of a positive integer, and what rounding to binary64 can change.\<close>

lemma bit_length_bounds: "0 < k \<Longrightarrow> 2 ^ (bit_length k - 1) \<le> k \<and> k < 2 ^ bit_length k"
proof (induction k rule: bit_length.induct)
  case (1 k)
  show ?case
  proof (cases "k = 1")
    case True
    then show ?thesis
      by (simp add: bit_length.simps [of 1] bit_length.simps [of 0])
  next
    case False
    with "1.prems" have h: "0 < k div 2" by simp
    with "1.IH" "1.prems" have ih: "2 ^ (bit_length (k div 2) - 1) \<le> k div 2" "k div 2 < 2 ^ bit_length (k div 2)"
      by auto
    have pos: "0 < bit_length (k div 2)"
      using h by (simp add: bit_length.simps [of "k div 2"])
    have bl: "bit_length k = Suc (bit_length (k div 2))"
      using "1.prems" by (simp add: bit_length.simps [of k])
    have "2 * 2 ^ (bit_length (k div 2) - 1) \<le> k"
      using ih(1) by linarith
    moreover have "(2::int) * 2 ^ (bit_length (k div 2) - 1) = 2 ^ bit_length (k div 2)"
      using pos by (cases "bit_length (k div 2)") auto
    moreover have "k < 2 * 2 ^ bit_length (k div 2)"
      using ih(2) by linarith
    ultimately show ?thesis
      by (simp add: bl)
  qed
qed

lemma bit_length_le: "k < 2 ^ n \<Longrightarrow> bit_length k \<le> n"
proof (cases "0 < k")
  case True
  assume "k < 2 ^ n"
  with bit_length_bounds [OF True] have "(2::int) ^ (bit_length k - 1) < 2 ^ n"
    by linarith
  then have "bit_length k - 1 < n"
    by simp
  then show ?thesis by simp
next
  case False
  then show ?thesis
    by (simp add: bit_length.simps [of k])
qed

lemma rne_bounds: "\<lfloor>z\<rfloor> \<le> rne z \<and> rne z \<le> \<lfloor>z\<rfloor> + 1"
  by (simp add: rne_def Let_def)

lemma rne_floor: "z - of_int \<lfloor>z\<rfloor> < 1 / 2 \<Longrightarrow> rne z = \<lfloor>z\<rfloor>"
  by (simp add: rne_def Let_def)

lemma rne_of_int: "rne (of_int k) = k"
  by (simp add: rne_def Let_def)

lemma real_less_2_53: "k < 2 ^ 53 \<Longrightarrow> real_of_int k < 2 ^ 53"
  using of_int_less_iff [of k "2 ^ 53", where ?'a = real] by simp

lemma real_le_2_53: "k \<le> 2 ^ 53 \<Longrightarrow> real_of_int k \<le> 2 ^ 53"
  using of_int_le_iff [of k "2 ^ 53", where ?'a = real] by simp

lemma rne_ge_int:
  assumes "of_int k \<le> z"
  shows "k \<le> rne z"
proof -
  from assms have "k \<le> \<lfloor>z\<rfloor>" by (simp add: le_floor_iff)
  with rne_bounds [of z] show ?thesis by linarith
qed

lemma rne_le_int:
  assumes "z \<le> of_int k"
  shows "rne z \<le> k"
proof (cases "z = of_int k")
  case True
  then show ?thesis by (simp add: rne_of_int)
next
  case False
  with assms have "z < of_int k" by simp
  then have "\<lfloor>z\<rfloor> < k" by (simp add: floor_less_iff)
  with rne_bounds [of z] show ?thesis by linarith
qed

text \<open>
  Below \<open>2 ^ 53\<close> the rounding is to a multiple of \<open>1 / 2 ^ t\<close>, where \<open>t\<close> is either
  1074 (the subnormal spacing) or places \<open>x * 2 ^ t\<close> in the binade \<open>[2 ^ 52, 2 ^ 53)\<close>.
\<close>

lemma round_binary64_scaled:
  assumes "0 \<le> x" "x < 2 ^ 53"
  shows "\<exists>t \<le> 1074. round_binary64 x = of_int (rne (x * 2 ^ t)) / 2 ^ t \<and>
           x * 2 ^ t < 2 ^ 53 \<and> (t < 1074 \<longrightarrow> 2 ^ 52 \<le> x * 2 ^ t)"
proof -
  define N :: nat where "N = 1074"
  define y where "y = x * 2 ^ N"
  define n where "n = bit_length \<lfloor>y\<rfloor>"
  define s where "s = n - 53"
  have rb: "round_binary64 x = of_int (rne (y / 2 ^ s)) * 2 ^ s / 2 ^ N"
    using assms(1) unfolding round_binary64_def Let_def y_def n_def s_def N_def by simp
  have "y < 2 ^ 53 * 2 ^ N"
    unfolding y_def using assms(2) by (rule mult_strict_right_mono) simp
  then have "y < 2 ^ (53 + N)"
    by (simp only: power_add)
  then have "\<lfloor>y\<rfloor> < 2 ^ (53 + N)"
    by (simp add: floor_less_iff)
  then have n: "n \<le> 53 + N"
    unfolding n_def by (rule bit_length_le)
  then have s: "s \<le> N" by (simp add: s_def)
  define t where "t = N - s"
  have pw: "(2::real) ^ N = 2 ^ t * 2 ^ s"
    using s by (simp add: t_def flip: power_add)
  have z: "y / 2 ^ s = x * 2 ^ t"
    by (simp add: y_def pw)
  have r: "round_binary64 x = of_int (rne (x * 2 ^ t)) / 2 ^ t"
    by (simp add: rb z pw)
  have up: "x * 2 ^ t < 2 ^ 53"
  proof (cases "0 < \<lfloor>y\<rfloor>")
    case False
    then have "y < 1" by (simp add: floor_less_iff not_less le_floor_iff)
    moreover have "n = 0" using False by (simp add: n_def bit_length.simps [of "\<lfloor>y\<rfloor>"])
    ultimately have "y / 2 ^ s < 2 ^ 53" by (simp add: s_def)
    then show ?thesis by (simp only: z)
  next
    case True
    from bit_length_bounds [OF True] have "\<lfloor>y\<rfloor> < 2 ^ n" by (simp add: n_def)
    then have "y < 2 ^ n"
      by (simp add: floor_less_iff)
    also have "(2::real) ^ n \<le> 2 ^ (53 + s)"
      by (intro power_increasing) (auto simp: s_def)
    finally have "y < 2 ^ 53 * 2 ^ s"
      by (simp only: power_add)
    then have "y / 2 ^ s < 2 ^ 53"
      by (simp add: divide_less_eq)
    then show ?thesis by (simp only: z)
  qed
  have low: "2 ^ 52 \<le> x * 2 ^ t" if "t < N"
  proof -
    from that s have sp: "0 < s" by (simp add: t_def)
    then have n53: "n = 53 + s" by (simp add: s_def)
    then have "0 < \<lfloor>y\<rfloor>"
      by (cases "0 < \<lfloor>y\<rfloor>") (auto simp: n_def bit_length.simps [of "\<lfloor>y\<rfloor>"])
    from bit_length_bounds [OF this] have "2 ^ (n - 1) \<le> \<lfloor>y\<rfloor>" by (simp add: n_def)
    then have "(2::real) ^ (n - 1) \<le> y"
      by (simp add: le_floor_iff)
    moreover have "n - 1 = 52 + s" using n53 by simp
    ultimately have "(2::real) ^ 52 * 2 ^ s \<le> y"
      by (simp only: power_add)
    then have "2 ^ 52 \<le> y / 2 ^ s"
      by (simp add: le_divide_eq)
    then show ?thesis by (simp only: z)
  qed
  have "t \<le> 1074" by (simp add: t_def N_def)
  moreover have "t < 1074 \<longrightarrow> 2 ^ 52 \<le> x * 2 ^ t"
    using low by (simp add: N_def)
  ultimately show ?thesis
    using r up by blast
qed

lemma round_binary64_lower:
  assumes "0 \<le> x" "x < 2 ^ 53" "of_int k \<le> x"
  shows "of_int k \<le> round_binary64 x"
proof -
  from round_binary64_scaled [OF assms(1,2)] obtain t
    where r: "round_binary64 x = of_int (rne (x * 2 ^ t)) / 2 ^ t" by blast
  have "of_int (k * 2 ^ t) \<le> x * 2 ^ t"
    using assms(3) by simp
  then have "k * 2 ^ t \<le> rne (x * 2 ^ t)"
    by (rule rne_ge_int)
  then have "(of_int (k * 2 ^ t) :: real) \<le> of_int (rne (x * 2 ^ t))"
    by (simp only: of_int_le_iff)
  then show ?thesis
    by (simp add: r le_divide_eq)
qed

lemma round_binary64_upper:
  assumes "0 \<le> x" "x < 2 ^ 53" "x \<le> of_int k"
  shows "round_binary64 x \<le> of_int k"
proof -
  from round_binary64_scaled [OF assms(1,2)] obtain t
    where r: "round_binary64 x = of_int (rne (x * 2 ^ t)) / 2 ^ t" by blast
  have "x * 2 ^ t \<le> of_int (k * 2 ^ t)"
    using assms(3) by simp
  then have "rne (x * 2 ^ t) \<le> k * 2 ^ t"
    by (rule rne_le_int)
  then have "(of_int (rne (x * 2 ^ t)) :: real) \<le> of_int (k * 2 ^ t)"
    by (simp only: of_int_le_iff)
  then show ?thesis
    by (simp add: r divide_le_eq)
qed

text \<open>An integer below \<open>2 ^ 53\<close> is a binary64.\<close>

lemma round_binary64_of_int:
  assumes "0 \<le> k" "k < 2 ^ 53"
  shows "round_binary64 (of_int k) = of_int k"
proof (rule antisym)
  show "round_binary64 (of_int k) \<le> of_int k"
    using assms by (intro round_binary64_upper real_less_2_53) simp_all
  show "of_int k \<le> round_binary64 (of_int k)"
    using assms by (intro round_binary64_lower real_less_2_53) simp_all
qed

lemma round_binary64_0: "round_binary64 0 = 0"
  using round_binary64_of_int [of 0] by simp

lemma py_int_0: "py_int 0 = 0"
  by (simp add: py_int_def)

text \<open>The value of the rounding, given the binade of the argument.\<close>

lemma round_binary64_binade:
  assumes "2 ^ 52 \<le> x * 2 ^ t" "x * 2 ^ t < 2 ^ 53" "t \<le> 1074"
  shows "round_binary64 x = of_int (rne (x * 2 ^ t)) / 2 ^ t"
proof -
  have "0 < x * 2 ^ t"
    using assms(1) by (rule less_le_trans [rotated]) simp
  then have x0: "0 < x"
    by (simp add: zero_less_mult_iff)
  have "x * 1 \<le> x * 2 ^ t"
    using x0 by (intro mult_left_mono) simp_all
  with assms(2) have x53: "x < 2 ^ 53" by simp
  from round_binary64_scaled [OF less_imp_le [OF x0] x53] obtain u
    where u: "u \<le> 1074" "round_binary64 x = of_int (rne (x * 2 ^ u)) / 2 ^ u"
      "x * 2 ^ u < 2 ^ 53" "u < 1074 \<longrightarrow> 2 ^ 52 \<le> x * 2 ^ u"
    by blast
  have dbl: "2 * (x * 2 ^ i) \<le> x * 2 ^ j" if "i < j" for i j :: nat
  proof -
    from that have "(2::real) ^ Suc i \<le> 2 ^ j"
      by (intro power_increasing) simp_all
    then have "x * 2 ^ Suc i \<le> x * 2 ^ j"
      using x0 by (intro mult_left_mono) simp_all
    then show ?thesis by simp
  qed
  have "u = t"
  proof (rule ccontr)
    assume "u \<noteq> t"
    then consider "u < t" | "t < u" by linarith
    then show False
    proof cases
      case 1
      with assms(3) u(4) have "2 ^ 52 \<le> x * 2 ^ u" by simp
      with dbl [OF 1] assms(2) show False by simp
    next
      case 2
      with dbl [OF 2] assms(1) u(3) show False by simp
    qed
  qed
  with u(2) show ?thesis by simp
qed

text \<open>
  The quotient of two integers, the dividend below \<open>2 ^ 53\<close>: after rounding, its
  integer part is still that of the exact quotient.
\<close>

lemma floor_round_binary64_quotient:
  assumes "0 \<le> a" "0 < b" "a < 2 ^ 53" "b \<le> 2 ^ 53"
  shows "\<lfloor>round_binary64 (of_int a / of_int b)\<rfloor> = a div b"
proof -
  let ?x = "real_of_int a / real_of_int b"
  let ?k = "a div b"
  have x0: "0 \<le> ?x" using assms(1,2) by simp
  have "?x \<le> of_int a"
    using assms(1,2) by (simp add: divide_le_eq mult_le_cancel_left1)
  also have "\<dots> < 2 ^ 53"
    using assms(3) by (rule real_less_2_53)
  finally have x53: "?x < 2 ^ 53" .
  have kx: "of_int ?k \<le> ?x"
    using floor_divide_of_int_eq [of a b, where ?'a = real] of_int_floor_le [of ?x] by simp
  have lower: "of_int ?k \<le> round_binary64 ?x"
    using x0 x53 kx by (rule round_binary64_lower)
  have gap: "1 / of_int b \<le> of_int (?k + 1) - ?x"
  proof -
    have "a < (?k + 1) * b"
      using assms(2) by (metis add.commute div_mult_mod_eq mult.commute
          pos_mod_bound add_strict_left_mono distrib_left mult.right_neutral)
    then have "1 \<le> (?k + 1) * b - a" by simp
    then have "(1::real) \<le> of_int ((?k + 1) * b - a)"
      by (simp only: of_int_1_le_iff)
    then have "1 / of_int b \<le> of_int ((?k + 1) * b - a) / real_of_int b"
      using assms(2) by (intro divide_right_mono) simp_all
    also have "\<dots> = of_int (?k + 1) - ?x"
      using assms(2) by (simp add: field_simps)
    finally show ?thesis .
  qed
  from round_binary64_scaled [OF x0 x53] obtain t
    where t: "t \<le> 1074" "round_binary64 ?x = of_int (rne (?x * 2 ^ t)) / 2 ^ t"
      "?x * 2 ^ t < 2 ^ 53" "t < 1074 \<longrightarrow> 2 ^ 52 \<le> ?x * 2 ^ t"
    by blast
  have bt: "of_int b < (2::real) ^ Suc t"
  proof (cases "t < 1074")
    case True
    with t(4) have "2 ^ 52 \<le> ?x * 2 ^ t" by simp
    then have "2 ^ 52 * of_int b \<le> of_int a * (2::real) ^ t"
      using assms(2) by (simp add: field_simps)
    also have "\<dots> < 2 ^ 53 * 2 ^ t"
      using assms(3) by (intro mult_strict_right_mono real_less_2_53) simp_all
    finally show ?thesis by simp
  next
    case False
    with t(1) have "t = 1074" by simp
    have "real_of_int b \<le> 2 ^ 53"
      using assms(4) by (rule real_le_2_53)
    also have "(2::real) ^ 53 < 2 ^ Suc t"
      unfolding \<open>t = 1074\<close> by (intro power_strict_increasing) simp_all
    finally show ?thesis .
  qed
  let ?z = "?x * 2 ^ t"
  have "1 / 2 < (of_int (?k + 1) - ?x) * 2 ^ t"
  proof -
    have "1 / 2 < 2 ^ t / real_of_int b"
      using bt assms(2) by (simp add: field_simps)
    also have "\<dots> = (1 / of_int b) * 2 ^ t" by simp
    also have "\<dots> \<le> (of_int (?k + 1) - ?x) * 2 ^ t"
      using gap by (intro mult_right_mono) simp_all
    finally show ?thesis .
  qed
  then have half: "?z < of_int ((?k + 1) * 2 ^ t) - 1 / 2"
    by (simp add: algebra_simps)
  have "rne ?z < (?k + 1) * 2 ^ t"
  proof (cases "\<lfloor>?z\<rfloor> = (?k + 1) * 2 ^ t - 1")
    case True
    then have "of_int \<lfloor>?z\<rfloor> = of_int ((?k + 1) * 2 ^ t) - (1::real)"
      by simp
    with half have "?z - of_int \<lfloor>?z\<rfloor> < 1 / 2" by linarith
    then have "rne ?z = \<lfloor>?z\<rfloor>" by (rule rne_floor)
    with True show ?thesis by simp
  next
    case False
    from half have "?z < of_int ((?k + 1) * 2 ^ t)" by linarith
    then have "\<lfloor>?z\<rfloor> < (?k + 1) * 2 ^ t" by (simp only: floor_less_iff)
    with False have "\<lfloor>?z\<rfloor> + 1 < (?k + 1) * 2 ^ t" by linarith
    with rne_bounds [of ?z] show ?thesis by linarith
  qed
  then have "(of_int (rne ?z) :: real) < of_int ((?k + 1) * 2 ^ t)"
    by (simp only: of_int_less_iff)
  then have upper: "round_binary64 ?x < of_int (?k + 1)"
    by (simp add: t(2) divide_less_eq)
  show ?thesis
    using lower upper by (intro floor_unique) simp_all
qed

lemma py_truediv_small:
  assumes "0 \<le> a" "0 < b" "real_of_int a / real_of_int b \<le> of_int k" "k < 2 ^ 53"
  shows "py_truediv a b = Inr (round_binary64 (real_of_int a / real_of_int b)) \<and>
     0 \<le> py_int (round_binary64 (real_of_int a / real_of_int b)) \<and>
     py_int (round_binary64 (real_of_int a / real_of_int b)) \<le> k"
proof -
  let ?x = "real_of_int a / real_of_int b"
  have x0: "0 \<le> ?x" using assms(1,2) by simp
  have "real_of_int k < 2 ^ 53" using assms(4) by (rule real_less_2_53)
  with assms(3) have x53: "?x < 2 ^ 53" by simp
  have lo: "0 \<le> round_binary64 ?x"
    using round_binary64_lower [OF x0 x53, of 0] x0 by simp
  have hi: "round_binary64 ?x \<le> of_int k"
    using x0 x53 assms(3) by (rule round_binary64_upper)
  have "round_binary64 ?x < 2 ^ 53"
    using hi \<open>real_of_int k < 2 ^ 53\<close> by simp
  also have "(2::real) ^ 53 < 2 ^ 1024"
    by (intro power_strict_increasing) simp_all
  finally have "\<bar>round_binary64 ?x\<bar> < 2 ^ 1024"
    using lo by simp
  then have "py_truediv a b = Inr (round_binary64 ?x)"
    using assms(2) by (simp add: py_truediv_def Let_def)
  moreover have "py_int (round_binary64 ?x) = \<lfloor>round_binary64 ?x\<rfloor>"
    using lo by (simp add: py_int_def)
  moreover have "\<lfloor>round_binary64 ?x\<rfloor> \<le> k"
    using hi by (simp add: floor_le_iff)
  moreover have "0 \<le> \<lfloor>round_binary64 ?x\<rfloor>"
    using lo by simp
  ultimately show ?thesis by simp
qed

lemma py_truediv_floor:
  assumes "0 \<le> a" "0 < b" "a < 2 ^ 53" "b \<le> 2 ^ 53"
  shows "py_truediv a b = Inr (round_binary64 (real_of_int a / real_of_int b)) \<and>
     py_int (round_binary64 (real_of_int a / real_of_int b)) = a div b"
proof -
  let ?x = "real_of_int a / real_of_int b"
  have "?x \<le> of_int a"
    using assms(1,2) by (simp add: divide_le_eq mult_le_cancel_left1)
  from py_truediv_small [OF assms(1,2) this assms(3)]
  have q: "py_truediv a b = Inr (round_binary64 ?x)" and q0: "0 \<le> py_int (round_binary64 ?x)"
    by simp_all
  have fl: "\<lfloor>round_binary64 ?x\<rfloor> = a div b"
    using assms by (rule floor_round_binary64_quotient)
  have "0 \<le> a div b"
    using assms(1,2) by (simp add: pos_imp_zdiv_nonneg_iff)
  with fl have "0 \<le> round_binary64 ?x"
    by (metis zero_le_floor)
  then have "py_int (round_binary64 ?x) = a div b"
    using fl by (simp add: py_int_def)
  with q show ?thesis by simp
qed

text \<open>The result of \<open>scale_binary64\<close> when every index it computes is in range.\<close>

lemma scale_binary64_result:
  assumes ne: "matrix \<noteq> []" and pos: "0 < rows" "0 < cols"
    and rws: "\<And>r. 0 \<le> r \<Longrightarrow> r < rows \<Longrightarrow>
        py_truediv (int (length matrix) * r) rows = Inr (qr r) \<and>
        0 \<le> py_int (qr r) \<and> py_int (qr r) < int (length matrix)"
    and cls: "\<And>r c. 0 \<le> r \<Longrightarrow> r < rows \<Longrightarrow> 0 \<le> c \<Longrightarrow> c < cols \<Longrightarrow>
        py_truediv (int (length (matrix ! 0)) * c) cols = Inr (qc c) \<and>
        0 \<le> py_int (qc c) \<and> py_int (qc c) < int (length (matrix ! nat (py_int (qr r))))"
  shows "scale_binary64 matrix rows cols =
     Inr (map (\<lambda>r. map (\<lambda>c. matrix ! nat (py_int (qr r)) ! nat (py_int (qc c)))
                 (py_range cols)) (py_range rows))"
proof -
  have row0: "py_index matrix 0 = Inr (matrix ! 0)"
    using ne by (simp add: py_index_def)
  let ?g = "\<lambda>r c. matrix ! nat (py_int (qr r)) ! nat (py_int (qc c))"
  let ?cell = "\<lambda>r c. case py_truediv (int (length matrix) * r) rows of Inl e \<Rightarrow> Inl e | Inr qr \<Rightarrow>
                (case py_index matrix (py_int qr) of Inl e \<Rightarrow> Inl e | Inr row \<Rightarrow>
                 (case py_truediv (int (length (matrix ! 0)) * c) cols of Inl e \<Rightarrow> Inl e | Inr qc \<Rightarrow>
                    py_index row (py_int qc)))"
  have cell: "?cell r c = Inr (?g r c)"
    if "r \<in> set (py_range rows)" "c \<in> set (py_range cols)" for r c
  proof -
    from that have rc: "0 \<le> r" "r < rows" "0 \<le> c" "c < cols"
      by (auto simp: py_range_def)
    from rws [OF rc(1,2)] have r1: "py_truediv (int (length matrix) * r) rows = Inr (qr r)"
      and r2: "py_index matrix (py_int (qr r)) = Inr (matrix ! nat (py_int (qr r)))"
      by (simp_all add: py_index_in_range)
    from cls [OF rc] have c1: "py_truediv (int (length (matrix ! 0)) * c) cols = Inr (qc c)"
      and c2: "py_index (matrix ! nat (py_int (qr r))) (py_int (qc c)) = Inr (?g r c)"
      by (simp_all add: py_index_in_range)
    show ?thesis
      by (simp only: r1 r2 c1 c2 sum.case)
  qed
  have inner: "map_err (?cell r) (py_range cols) = Inr (map (?g r) (py_range cols))"
    if "r \<in> set (py_range rows)" for r
    by (rule map_err_Inr) (rule cell [OF that])
  have outer: "map_err (\<lambda>r. map_err (?cell r) (py_range cols)) (py_range rows)
        = Inr (map (\<lambda>r. map (?g r) (py_range cols)) (py_range rows))"
    by (rule map_err_Inr) (rule inner)
  have resh: "reshape (map (\<lambda>r. map (?g r) (py_range cols)) (py_range rows)) rows cols
        = Inr (map (\<lambda>r. map (?g r) (py_range cols)) (py_range rows))"
    using pos by (intro reshape_id) (simp_all add: py_range_def list_all_iff)
  show ?thesis
    by (simp only: scale_binary64_def Let_def row0 outer resh sum.case)
qed

text \<open>
  While the products \<open>src_rows * rows\<close> and \<open>src_cols * cols\<close> do not exceed \<open>2 ^ 53\<close>,
  rounding the quotients does not change their integer parts: \<open>scale_binary64\<close> and
  \<open>scale\<close> return the same matrix.
\<close>

lemma scale_binary64_exact:
  assumes "matrix \<noteq> []" "list_all (\<lambda>row. length row = C) matrix" "0 < C"
    and "0 < rows" "0 < cols"
    and "int (length matrix) * rows \<le> 2 ^ 53" "int C * cols \<le> 2 ^ 53"
  shows "scale_binary64 matrix rows cols = scale matrix rows cols"
proof -
  let ?R = "int (length matrix)"
  let ?qr = "\<lambda>r. round_binary64 (real_of_int (?R * r) / real_of_int rows)"
  let ?qc = "\<lambda>c. round_binary64 (real_of_int (int C * c) / real_of_int cols)"
  have R0: "0 < ?R" using assms(1) by simp
  have len0: "length (matrix ! 0) = C"
    using assms(1,2) by (simp add: list_all_iff)
  have rows53: "rows \<le> 2 ^ 53"
  proof -
    have "1 \<le> ?R" using assms(1) by (cases matrix) auto
    then have "rows * 1 \<le> rows * ?R" using assms(4) by (intro mult_left_mono) simp_all
    with assms(6) show ?thesis by (simp add: mult.commute)
  qed
  have cols53: "cols \<le> 2 ^ 53"
  proof -
    have "1 \<le> int C" using assms(3) by simp
    then have "cols * 1 \<le> cols * int C" using assms(5) by (intro mult_left_mono) simp_all
    with assms(7) show ?thesis by (simp add: mult.commute)
  qed
  have rw: "py_truediv (?R * r) rows = Inr (?qr r) \<and> py_int (?qr r) = ?R * r div rows"
    if "0 \<le> r" "r < rows" for r
  proof (rule py_truediv_floor)
    show "0 \<le> ?R * r" using that by simp
    show "0 < rows" by (rule assms(4))
    have "?R * r < ?R * rows" using that R0 by simp
    with assms(6) show "?R * r < 2 ^ 53" by simp
    show "rows \<le> 2 ^ 53" by (rule rows53)
  qed
  have cl: "py_truediv (int C * c) cols = Inr (?qc c) \<and> py_int (?qc c) = int C * c div cols"
    if "0 \<le> c" "c < cols" for c
  proof (rule py_truediv_floor)
    show "0 \<le> int C * c" using that by simp
    show "0 < cols" by (rule assms(5))
    have "int C * c < int C * cols" using that assms(3) by simp
    with assms(7) show "int C * c < 2 ^ 53" by simp
    show "cols \<le> 2 ^ 53" by (rule cols53)
  qed
  have "scale_binary64 matrix rows cols =
     Inr (map (\<lambda>r. map (\<lambda>c. matrix ! nat (py_int (?qr r)) ! nat (py_int (?qc c)))
                 (py_range cols)) (py_range rows))"
  proof (rule scale_binary64_result)
    show "matrix \<noteq> []" by (rule assms(1))
    show "0 < rows" "0 < cols" by (rule assms(4), rule assms(5))
  next
    fix r assume r: "0 \<le> r" "r < rows"
    have "0 \<le> ?R * r div rows" "?R * r div rows < ?R"
      using r R0 assms(4) by (simp_all add: idx_bound pos_imp_zdiv_nonneg_iff)
    with rw [OF r] show "py_truediv (?R * r) rows = Inr (?qr r) \<and>
        0 \<le> py_int (?qr r) \<and> py_int (?qr r) < ?R"
      by simp
  next
    fix r c assume r: "0 \<le> r" "r < rows" and c: "0 \<le> c" "c < cols"
    have i: "0 \<le> ?R * r div rows" "?R * r div rows < ?R"
      using r R0 assms(4) by (simp_all add: idx_bound pos_imp_zdiv_nonneg_iff)
    then have "matrix ! nat (?R * r div rows) \<in> set matrix"
      by (simp add: nat_less_iff)
    then have "length (matrix ! nat (py_int (?qr r))) = C"
      using assms(2) rw [OF r] by (simp add: list_all_iff)
    moreover have "0 \<le> int C * c div cols" "int C * c div cols < int C"
      using c assms(3,5) by (simp_all add: idx_bound pos_imp_zdiv_nonneg_iff)
    ultimately show "py_truediv (int (length (matrix ! 0)) * c) cols = Inr (?qc c) \<and>
        0 \<le> py_int (?qc c) \<and> py_int (?qc c) < int (length (matrix ! nat (py_int (?qr r))))"
      using cl [OF c] by (simp add: len0)
  qed
  also have "map (\<lambda>r. map (\<lambda>c. matrix ! nat (py_int (?qr r)) ! nat (py_int (?qc c)))
                 (py_range cols)) (py_range rows)
      = map (\<lambda>r. map (\<lambda>c. matrix ! nat (?R * r div rows) ! nat (int C * c div cols))
                 (py_range cols)) (py_range rows)"
  proof (intro map_cong refl)
    fix r c assume "r \<in> set (py_range rows)" "c \<in> set (py_range cols)"
    then have "0 \<le> r" "r < rows" "0 \<le> c" "c < cols"
      by (auto simp: py_range_def)
    with rw cl have "py_int (?qr r) = ?R * r div rows" "py_int (?qc c) = int C * c div cols"
      by blast+
    then show "matrix ! nat (py_int (?qr r)) ! nat (py_int (?qc c))
        = matrix ! nat (?R * r div rows) ! nat (int C * c div cols)"
      by (simp only:)
  qed
  also have "Inr (map (\<lambda>r. map (\<lambda>c. matrix ! nat (?R * r div rows) ! nat (int C * c div cols))
                 (py_range cols)) (py_range rows)) = scale matrix rows cols"
    using assms(1-5) by (rule scale_cells [symmetric])
  finally show ?thesis .
qed

text \<open>
  The quotient \<open>134217730 * 134217728 / 134217729\<close> is \<open>1 / 134217729\<close> below the
  integer 134217729, less than half the spacing \<open>2 ^ -25\<close> of the binary64 numbers
  there: it rounds to 134217729.
\<close>

lemma round_binary64_next_integer:
  "round_binary64 (real_of_int (134217730 * 134217728) / real_of_int 134217729) = 134217729"
proof -
  let ?x = "real_of_int (134217730 * 134217728) / real_of_int 134217729"
  have "rne (?x * 2 ^ 25) = 4503599660924928"
    by (simp add: rne_def Let_def)
  moreover have "round_binary64 ?x = of_int (rne (?x * 2 ^ 25)) / 2 ^ 25"
    by (rule round_binary64_binade) simp_all
  ultimately show ?thesis by simp
qed

text \<open>
  Claim C3. For every non-empty rectangular matrix and all target dimensions
  \<open>rows > 0\<close> and \<open>cols > 0\<close>, the cell \<open>(r, c)\<close> of \<^verbatim>\<open>scale(matrix, rows, cols)\<close> is the
  source cell at row \<open>floor(src_rows * r / rows)\<close> and column
  \<open>floor(src_cols * c / cols)\<close>. The code takes \<^verbatim>\<open>int\<close> of the binary64 quotient, which
  can be the next integer once the product exceeds \<open>2 ^ 53\<close>: resizing the one row
  \<open>0, 1, \<dots>, 134217729\<close> to 134217729 columns, the cell \<open>(0, 134217728)\<close> is read from
  column 134217729, where the claim says 134217728.
\<close>

theorem scale_binary64_reads_next_cell:
  "(\<exists>out. scale_binary64 [[0..<134217730]] 1 134217729 = Inr out \<and>
      out ! 0 ! 134217728 = 134217729) \<and>
   [[0..<134217730]] ! nat \<lfloor>real (1 * 0) / real_of_int 1\<rfloor>
      ! nat \<lfloor>real (134217730 * 134217728) / real_of_int 134217729\<rfloor> = 134217728"
proof -
  let ?M = "[[0..<134217730]] :: nat list list"
  let ?qr = "\<lambda>r. round_binary64 (real_of_int (int (length ?M) * r) / real_of_int 1)"
  let ?qc = "\<lambda>c. round_binary64 (real_of_int (int (length (?M ! 0)) * c) / real_of_int 134217729)"
  have res: "scale_binary64 ?M 1 134217729 =
     Inr (map (\<lambda>r. map (\<lambda>c. ?M ! nat (py_int (?qr r)) ! nat (py_int (?qc c)))
                 (py_range 134217729)) (py_range 1))"
  proof (rule scale_binary64_result)
    show "?M \<noteq> []" by simp
    show "(0::int) < 1" "(0::int) < 134217729" by simp_all
  next
    fix r :: int assume "0 \<le> r" "r < 1"
    then have r: "r = 0" by simp
    from py_truediv_floor [of 0 1]
    show "py_truediv (int (length ?M) * r) 1 = Inr (?qr r) \<and>
        0 \<le> py_int (?qr r) \<and> py_int (?qr r) < int (length ?M)"
      by (simp add: r)
  next
    fix r c :: int assume "0 \<le> r" "r < 1" and c: "0 \<le> c" "c < 134217729"
    then have r: "r = 0" by simp
    have "real_of_int c \<le> 134217728"
      using c by simp
    then have "real_of_int (134217730 * c) / real_of_int 134217729 \<le> of_int 134217729"
      by simp
    from py_truediv_small [OF _ _ this] c(1)
    have "py_truediv (134217730 * c) 134217729 =
        Inr (round_binary64 (real_of_int (134217730 * c) / real_of_int 134217729)) \<and>
        0 \<le> py_int (round_binary64 (real_of_int (134217730 * c) / real_of_int 134217729)) \<and>
        py_int (round_binary64 (real_of_int (134217730 * c) / real_of_int 134217729)) \<le> 134217729"
      by simp
    then show "py_truediv (int (length (?M ! 0)) * c) 134217729 = Inr (?qc c) \<and>
        0 \<le> py_int (?qc c) \<and> py_int (?qc c) < int (length (?M ! nat (py_int (?qr r))))"
      by (simp add: r round_binary64_0 py_int_0)
  qed
  have cell: "map (\<lambda>r. map (\<lambda>c. ?M ! nat (py_int (?qr r)) ! nat (py_int (?qc c)))
                 (py_range 134217729)) (py_range 1) ! 0 ! 134217728 = 134217729"
    using round_binary64_next_integer
    by (simp add: py_range_def round_binary64_0 py_int_def)
  have "?M ! nat \<lfloor>real (1 * 0) / real_of_int 1\<rfloor>
      ! nat \<lfloor>real (134217730 * 134217728) / real_of_int 134217729\<rfloor> = 134217728"
    by simp
  with res cell show ?thesis by simp
qed

text \<open>
  Claim C8. For a matrix with \<open>R > 0\<close> rows of \<open>C > 0\<close> cells each,
  \<^verbatim>\<open>scale(matrix, R, C)\<close> returns the matrix itself.
\<close>

theorem scale_same_shape:
  assumes "rectangular matrix R C" "0 < R" "0 < C"
  shows "scale matrix (int R) (int C) = Inr matrix"
proof -
  have ne: "matrix \<noteq> []" and all: "list_all (\<lambda>row. length row = C) matrix" and len: "length matrix = R"
    using assms(1,2) by (auto simp: rectangular_def)
  have s: "scale matrix (int R) (int C) =
     Inr (map (\<lambda>r. map (\<lambda>c. matrix ! nat (int (length matrix) * r div int R) ! nat (int C * c div int C))
                 (py_range (int C))) (py_range (int R)))"
    using ne all assms(2,3) by (intro scale_cells) auto
  have "map (\<lambda>r. map (\<lambda>c. matrix ! nat (int (length matrix) * r div int R) ! nat (int C * c div int C))
                 (py_range (int C))) (py_range (int R)) = matrix"
  proof (rule nth_equalityI)
    show "length (map (\<lambda>r. map (\<lambda>c. matrix ! nat (int (length matrix) * r div int R) ! nat (int C * c div int C))
                 (py_range (int C))) (py_range (int R))) = length matrix"
      by (simp add: py_range_def len)
  next
    fix i
    assume "i < length (map (\<lambda>r. map (\<lambda>c. matrix ! nat (int (length matrix) * r div int R) ! nat (int C * c div int C))
                 (py_range (int C))) (py_range (int R)))"
    then have i: "i < R" by (simp add: py_range_def)
    then have "matrix ! i \<in> set matrix" by (simp add: len)
    then have li: "length (matrix ! i) = C"
      using all by (simp add: list_all_iff)
    show "map (\<lambda>r. map (\<lambda>c. matrix ! nat (int (length matrix) * r div int R) ! nat (int C * c div int C))
                 (py_range (int C))) (py_range (int R)) ! i = matrix ! i"
      using i assms(2,3) li by (auto simp: py_range_def len intro!: nth_equalityI)
  qed
  with s show ?thesis by simp
qed

text \<open>A 2-by-3 matrix resized to 2 by 3.\<close>

theorem scale_same_shape_witness:
  "rectangular [[1, 2, 3], [4, 5, 6::nat]] 2 3 \<and>
   scale [[1, 2, 3], [4, 5, 6::nat]] 2 3 = Inr [[1, 2, 3], [4, 5, 6]]"
proof -
  have h: "rectangular [[1, 2, 3], [4, 5, 6::nat]] 2 3"
    by (simp add: rectangular_def)
  show ?thesis
    using h scale_same_shape [OF h] by simp
qed

text \<open>
  With the binary64 quotient as well, resizing to the same shape is the identity
  as long as no dimension exceeds \<open>2 ^ 53\<close>: the quotient \<open>R * r / R\<close> is the integer
  \<open>r\<close>, which is a binary64.
\<close>

lemma scale_binary64_same_shape:
  assumes "rectangular matrix R C" "0 < R" "0 < C" "int R \<le> 2 ^ 53" "int C \<le> 2 ^ 53"
  shows "scale_binary64 matrix (int R) (int C) = Inr matrix"
proof -
  have ne: "matrix \<noteq> []" and all: "list_all (\<lambda>row. length row = C) matrix" and len: "length matrix = R"
    using assms(1,2) by (auto simp: rectangular_def)
  have len0: "length (matrix ! 0) = C"
    using ne all by (simp add: list_all_iff)
  have quot: "py_truediv (int n * k) (int n) = Inr (of_int k) \<and> py_int (of_int k) = k"
    if "0 < n" "int n \<le> 2 ^ 53" "0 \<le> k" "k < int n" for n k
  proof -
    have k53: "k < 2 ^ 53" using that by simp
    have "real_of_int (int n * k) / real_of_int (int n) = of_int k"
      using that(1) by simp
    moreover have "round_binary64 (of_int k) = of_int k"
      using that(3) k53 by (rule round_binary64_of_int)
    moreover have "(2::real) ^ 53 < 2 ^ 1024"
      by (intro power_strict_increasing) simp_all
    then have "\<bar>real_of_int k\<bar> < 2 ^ 1024"
      using real_less_2_53 [OF k53] that(3) by simp
    ultimately have "py_truediv (int n * k) (int n) = Inr (of_int k)"
      using that(1) by (simp add: py_truediv_def Let_def)
    moreover have "py_int (of_int k) = k"
      using that(3) by (simp add: py_int_def)
    ultimately show ?thesis by simp
  qed
  have "scale_binary64 matrix (int R) (int C) =
     Inr (map (\<lambda>r. map (\<lambda>c. matrix ! nat (py_int (real_of_int r)) ! nat (py_int (real_of_int c)))
                 (py_range (int C))) (py_range (int R)))"
  proof (rule scale_binary64_result)
    show "matrix \<noteq> []" by (rule ne)
    show "0 < int R" "0 < int C" using assms(2,3) by simp_all
  next
    fix r assume "0 \<le> r" "r < int R"
    with quot [OF assms(2,4)] show "py_truediv (int (length matrix) * r) (int R) = Inr (real_of_int r) \<and>
        0 \<le> py_int (real_of_int r) \<and> py_int (real_of_int r) < int (length matrix)"
      by (simp add: len)
  next
    fix r c assume r: "0 \<le> r" "r < int R" and c: "0 \<le> c" "c < int C"
    from r have "matrix ! nat r \<in> set matrix"
      by (simp add: len nat_less_iff)
    then have "length (matrix ! nat r) = C"
      using all by (simp add: list_all_iff)
    moreover have "py_int (real_of_int r) = r"
      using r(1) by (simp add: py_int_def)
    ultimately show "py_truediv (int (length (matrix ! 0)) * c) (int C) = Inr (real_of_int c) \<and>
        0 \<le> py_int (real_of_int c) \<and>
        py_int (real_of_int c) < int (length (matrix ! nat (py_int (real_of_int r))))"
      using quot [OF assms(3,5) c] c by (simp add: len0)
  qed
  also have "map (\<lambda>r. map (\<lambda>c. matrix ! nat (py_int (real_of_int r)) ! nat (py_int (real_of_int c)))
                 (py_range (int C))) (py_range (int R)) = matrix"
  proof (rule nth_equalityI)
    show "length (map (\<lambda>r. map (\<lambda>c. matrix ! nat (py_int (real_of_int r)) ! nat (py_int (real_of_int c)))
                 (py_range (int C))) (py_range (int R))) = length matrix"
      by (simp add: py_range_def len)
  next
    fix i
    assume "i < length (map (\<lambda>r. map (\<lambda>c. matrix ! nat (py_int (real_of_int r)) ! nat (py_int (real_of_int c)))
                 (py_range (int C))) (py_range (int R)))"
    then have i: "i < R" by (simp add: py_range_def)
    then have "matrix ! i \<in> set matrix" by (simp add: len)
    then have li: "length (matrix ! i) = C"
      using all by (simp add: list_all_iff)
    show "map (\<lambda>r. map (\<lambda>c. matrix ! nat (py_int (real_of_int r)) ! nat (py_int (real_of_int c)))
                 (py_range (int C))) (py_range (int R)) ! i = matrix ! i"
      using i li by (auto simp: py_range_def py_int_def intro!: nth_equalityI)
  qed
  finally show ?thesis .
qed

text \<open>A value that rounds to less than \<open>2 ^ 53\<close> in magnitude is finite in binary64.\<close>

lemma np_round_finite:
  assumes "\<bar>round_binary64 x\<bar> < 2 ^ 53"
  shows "np_round x = Fin (round_binary64 x)"
proof -
  have p: "(2::real) ^ 53 < 2 ^ 1024"
    by (rule power_strict_increasing) simp_all
  have gen: "r < b \<and> - b < r" if "\<bar>r\<bar> < a" "a < b" for a b r :: real
    using that by linarith
  from gen [OF assms p]
  have "\<not> 2 ^ 1024 \<le> round_binary64 x" "\<not> round_binary64 x \<le> - (2 ^ 1024)"
    by (simp_all only: not_le)
  then show ?thesis
    by (simp only: np_round_def Let_def if_False)
qed

lemma np_round_of_int:
  assumes "0 \<le> k" "k < 2 ^ 53"
  shows "np_round (of_int k) = Fin (of_int k)"
proof -
  have r: "round_binary64 (of_int k) = of_int k"
    using assms by (rule round_binary64_of_int)
  have "\<bar>real_of_int k\<bar> < 2 ^ 53"
    using real_less_2_53 [OF assms(2)] assms(1) by simp
  then have "\<bar>round_binary64 (of_int k)\<bar> < 2 ^ 53"
    by (simp only: r)
  then have "np_round (of_int k) = Fin (round_binary64 (of_int k))"
    by (rule np_round_finite)
  then show ?thesis
    by (simp only: r)
qed

text \<open>The binary64 nearest to \<open>144 / 200\<close>, and that it is one.\<close>

lemma round_binary64_144_200:
  "round_binary64 (144 / 200) = 6485183463413514 / 2 ^ 53"
proof -
  have "round_binary64 (144 / 200) = of_int (rne (144 / 200 * 2 ^ 53)) / 2 ^ 53"
    by (rule round_binary64_binade) simp_all
  moreover have "rne (144 / 200 * 2 ^ 53) = 6485183463413514"
    by (simp add: rne_def Let_def)
  ultimately show ?thesis
    by (simp only: of_int_numeral)
qed

lemma round_binary64_again:
  "round_binary64 (6485183463413514 / 2 ^ 53) = 6485183463413514 / 2 ^ 53"
proof -
  have "round_binary64 (6485183463413514 / 2 ^ 53)
      = of_int (rne (6485183463413514 / 2 ^ 53 * 2 ^ 53)) / 2 ^ 53"
    by (rule round_binary64_binade) simp_all
  moreover have "rne (6485183463413514 / 2 ^ 53 * 2 ^ 53) = 6485183463413514"
    using rne_of_int [of 6485183463413514] by simp
  ultimately show ?thesis
    by (simp only: of_int_numeral)
qed

lemma np_round_144_200:
  "np_round (144 / 200) = Fin (6485183463413514 / 2 ^ 53)"
  "np_round (6485183463413514 / 2 ^ 53 + 0) = Fin (6485183463413514 / 2 ^ 53)"
proof -
  have small: "\<bar>6485183463413514 / 2 ^ 53 :: real\<bar> < 2 ^ 53"
    by simp
  have "np_round (144 / 200) = Fin (round_binary64 (144 / 200))"
    by (rule np_round_finite) (simp only: round_binary64_144_200 small)
  then show "np_round (144 / 200) = Fin (6485183463413514 / 2 ^ 53)"
    by (simp only: round_binary64_144_200)
  have "np_round (6485183463413514 / 2 ^ 53) = Fin (round_binary64 (6485183463413514 / 2 ^ 53))"
    by (rule np_round_finite) (simp only: round_binary64_again small)
  then show "np_round (6485183463413514 / 2 ^ 53 + 0) = Fin (6485183463413514 / 2 ^ 53)"
    by (simp only: round_binary64_again add_0_right)
qed

text \<open>
  Claim C4. For every array of numeric values with at least two distinct values,
  \<^verbatim>\<open>rescale_array\<close> maps each element \<open>v\<close> to
  \<open>(mx - mn) * (v - min) / (max - min) + mn\<close>. The code does not on an integer array:
  the product \<^verbatim>\<open>(mx - mn) * (dat - m)\<close> is computed in the dtype of the array and
  wraps. On the \<^verbatim>\<open>uint8\<close> array \<open>[0, 100, 200]\<close> with \<open>mn = 0\<close> and \<open>mx = 2\<close> the last
  product \<open>2 * 200\<close> becomes 144, and the result is \<open>[0, 1, 0.72]\<close> where the formula
  gives \<open>[0, 1, 2]\<close>.
\<close>

theorem rescale_array_uint8_wraps:
  "rescale_array (IntArray False 8 [0, 100, 200]) (IntNum 0) (IntNum 2)
     = Inr [Fin 0, Fin 1, Fin (6485183463413514 / 2 ^ 53)] \<and>
   (2 - 0) * (200 - 0) / (200 - 0) + 0 \<noteq> (6485183463413514 / 2 ^ 53 :: real)"
proof -
  have i: "int_to_float64 0 = Fin 0" "int_to_float64 144 = Fin 144" "int_to_float64 200 = Fin 200"
    using np_round_of_int [of 0] np_round_of_int [of 144] np_round_of_int [of 200]
    by (simp_all add: int_to_float64_def)
  have z: "python_float (IntNum 0) = Inr (Fin 0)"
    using np_round_of_int [of 0] by (simp add: python_float_def)
  have r0: "np_round 0 = Fin 0" and r1: "np_round 1 = Fin 1"
    using np_round_of_int [of 0] np_round_of_int [of 1] by simp_all
  have d: "np_div (Fin 0) (Fin 200) = Fin 0" "np_div (Fin 200) (Fin 200) = Fin 1"
    using r0 r1 by simp_all
  have "np_div (Fin 144) (Fin 200) = np_round (144 / 200)"
    by (simp del: divide_divide_eq_left divide_divide_eq_right times_divide_eq_left
        times_divide_eq_right divide_numeral_1 flip: )
  then have d': "np_div (Fin 144) (Fin 200) = Fin (6485183463413514 / 2 ^ 53)"
    by (simp only: np_round_144_200)
  have a: "np_add (Fin 0) (Fin 0) = Fin 0" "np_add (Fin 1) (Fin 0) = Fin 1"
    using r0 r1 by simp_all
  have "np_add (Fin (6485183463413514 / 2 ^ 53)) (Fin 0) = np_round (6485183463413514 / 2 ^ 53 + 0)"
    by (simp only: np_add.simps)
  then have a': "np_add (Fin (6485183463413514 / 2 ^ 53)) (Fin 0) = Fin (6485183463413514 / 2 ^ 53)"
    by (simp only: np_round_144_200)
  have n: "(6485183463413514 / 2 ^ 53 :: real) = 3242591731706757 / 4503599627370496"
    by simp
  note d'' = d' [unfolded n] and a'' = a' [unfolded n]
  have w: "wrap_int False 8 0 = 0" "wrap_int False 8 100 = 100"
    "wrap_int False 8 200 = 200" "wrap_int False 8 400 = 144"
    by (simp_all add: wrap_int_def)
  have "rescale_array (IntArray False 8 [0, 100, 200]) (IntNum 0) (IntNum 2)
     = Inr [Fin 0, Fin 1, Fin (6485183463413514 / 2 ^ 53)]"
    unfolding rescale_array_def py_min_def py_max_def py_sub_def dtype_range_def
    by (simp add: w i z d d'' a a'' del: np_div.simps np_add.simps)
  then show ?thesis by simp
qed


section \<open>Properties of the configuration assembler\<close>

lemma dict_get_append:
  "dict_get (d @ [(k, v)]) k' =
     (case dict_get d k' of Some x \<Rightarrow> Some x | None \<Rightarrow> if k' = k then Some v else None)"
  by (simp add: dict_get_def map_add_def split: option.splits)

lemma dict_get_map_upd:
  "dict_get (map (\<lambda>(k', v'). if k' = k then (k', v) else (k', v')) d) k' =
     (if k' = k then (if k \<in> set (map fst d) then Some v else None) else dict_get d k')"
  by (induction d) (force simp: dict_get_def)+

lemma dict_get_None: "k \<notin> set (map fst d) \<Longrightarrow> dict_get d k = None"
  by (simp add: dict_get_def map_of_eq_None_iff)

lemma dict_get_set: "dict_get (dict_set d k v) k' = (if k' = k then Some v else dict_get d k')"
  by (simp add: dict_set_def dict_get_append dict_get_map_upd dict_get_None split: option.splits)

text \<open>
  Claim C5, as amended. For every \<open>inputs\<close> and \<open>settings\<close>, the result of
  \<^verbatim>\<open>create_json_config\<close> contains every item of \<open>inputs\<close> whose key is neither
  \<^verbatim>\<open>"roi_ids"\<close> nor \<^verbatim>\<open>"settings"\<close> unchanged, its \<^verbatim>\<open>"roi_ids"\<close> holds the keys of
  \<open>inputs\<close> in their insertion order and its \<^verbatim>\<open>"settings"\<close> holds \<open>settings\<close>. The
  function is pure and total: it has no state and no exception.
\<close>

theorem create_json_config_merge:
  "(\<forall>k v. dict_get inputs k = Some v \<and> k \<noteq> ''roi_ids'' \<and> k \<noteq> ''settings'' \<longrightarrow>
        dict_get (create_json_config inputs settings) k = Some v) \<and>
   dict_get (create_json_config inputs settings) ''roi_ids'' = Some (PList (map PStr (dict_keys inputs))) \<and>
   dict_get (create_json_config inputs settings) ''settings'' = Some (PDict settings)"
  by (simp add: create_json_config_def dict_get_set)

text \<open>Two regions of interest and one setting.\<close>

theorem create_json_config_merge_witness:
  "dict_get [(''1'', PDict [(''sitename'', PStr ''a'')]), (''2'', PDict [])] ''1''
     = Some (PDict [(''sitename'', PStr ''a'')]) \<and>
   dict_get (create_json_config [(''1'', PDict [(''sitename'', PStr ''a'')]), (''2'', PDict [])]
               [(''cloud_thresh'', PFloat 0.5)]) ''1'' = Some (PDict [(''sitename'', PStr ''a'')]) \<and>
   dict_get (create_json_config [(''1'', PDict [(''sitename'', PStr ''a'')]), (''2'', PDict [])]
               [(''cloud_thresh'', PFloat 0.5)]) ''roi_ids'' = Some (PList [PStr ''1'', PStr ''2'']) \<and>
   dict_get (create_json_config [(''1'', PDict [(''sitename'', PStr ''a'')]), (''2'', PDict [])]
               [(''cloud_thresh'', PFloat 0.5)]) ''settings'' = Some (PDict [(''cloud_thresh'', PFloat 0.5)])"
proof -
  let ?inputs = "[(''1'', PDict [(''sitename'', PStr ''a'')]), (''2'', PDict [])]"
  have h: "dict_get ?inputs ''1'' = Some (PDict [(''sitename'', PStr ''a'')])"
    by (simp add: dict_get_def)
  note t = create_json_config_merge [of ?inputs "[(''cloud_thresh'', PFloat 0.5)]"]
  from t have "dict_get (create_json_config ?inputs [(''cloud_thresh'', PFloat 0.5)]) ''1'' =
      Some (PDict [(''sitename'', PStr ''a'')])"
    using h by simp
  moreover from t have "dict_get (create_json_config ?inputs [(''cloud_thresh'', PFloat 0.5)]) ''roi_ids''
      = Some (PList [PStr ''1'', PStr ''2''])"
    by (simp add: dict_keys_def)
  moreover from t have "dict_get (create_json_config ?inputs [(''cloud_thresh'', PFloat 0.5)]) ''settings''
      = Some (PDict [(''cloud_thresh'', PFloat 0.5)])"
    by simp
  ultimately show ?thesis using h by simp
qed

text \<open>
  Claim C5 as stated fails for an \<open>inputs\<close> that has the key \<^verbatim>\<open>"settings"\<close>: its item is
  replaced.
\<close>

theorem create_json_config_overwrites:
  "dict_get [(''settings'', PInt 1)] ''settings'' = Some (PInt 1) \<and>
   dict_get (create_json_config [(''settings'', PInt 1)] []) ''settings'' \<noteq> Some (PInt 1)"
  by (simp add: create_json_config_def dict_get_def dict_set_def dict_keys_def)


section \<open>Properties of the geometry collections\<close>

text \<open>
  Claim C6, as amended. For every geometry collection that is not empty,
  \<^verbatim>\<open>extract_roi_by_id(gdf, None)\<close> returns the collection unchanged and does not raise.
\<close>

theorem extract_roi_by_id_None:
  "\<not> gdf_empty gdf \<Longrightarrow> extract_roi_by_id py_str gdf PNone = Inr gdf"
  by (simp add: extract_roi_by_id_def)

text \<open>A collection of three rows.\<close>

theorem extract_roi_by_id_None_witness:
  "\<not> gdf_empty \<lparr>gdf_index = [0, 1, 2], gdf_columns = [(''id'', [PStr ''1'', PStr ''2'', PStr ''3''])]\<rparr> \<and>
   extract_roi_by_id (\<lambda>v. case v of PStr s \<Rightarrow> s | _ \<Rightarrow> [])
     \<lparr>gdf_index = [0, 1, 2], gdf_columns = [(''id'', [PStr ''1'', PStr ''2'', PStr ''3''])]\<rparr> PNone
   = Inr \<lparr>gdf_index = [0, 1, 2], gdf_columns = [(''id'', [PStr ''1'', PStr ''2'', PStr ''3''])]\<rparr>"
proof -
  have h: "\<not> gdf_empty \<lparr>gdf_index = [0, 1, 2], gdf_columns = [(''id'', [PStr ''1'', PStr ''2'', PStr ''3''])]\<rparr>"
    by (simp add: gdf_empty_def)
  show ?thesis
    using h extract_roi_by_id_None [OF h] by simp
qed

text \<open>
  Claim C6 as stated fails for an empty collection: the test \<^verbatim>\<open>single_roi.empty\<close> is
  made in both branches, and the function raises \<^verbatim>\<open>Id_Not_Found\<close>.
\<close>

theorem extract_roi_by_id_empty_raises:
  "extract_roi_by_id (\<lambda>v. case v of PStr s \<Rightarrow> s | _ \<Rightarrow> [])
     \<lparr>gdf_index = [], gdf_columns = [(''id'', [])]\<rparr> PNone = Inl Id_Not_Found"
  by (simp add: extract_roi_by_id_def gdf_empty_def)


section \<open>Properties of saving a configuration\<close>

text \<open>
  Claim C9. For a \<open>config\<close> that is neither a \<^verbatim>\<open>dict\<close> nor a \<^verbatim>\<open>GeoDataFrame\<close>,
  \<^verbatim>\<open>config_to_file\<close> changes no file, logs nothing and raises nothing.
\<close>

theorem config_to_file_other:
  "\<not> isinstance_dict config \<Longrightarrow> \<not> isinstance_gdf config \<Longrightarrow>
   config_to_file lib config file_path st = (None, st)"
  by (simp add: config_to_file_def)

text \<open>A list as \<open>config\<close>.\<close>

theorem config_to_file_other_witness:
  "\<not> isinstance_dict (Value (PList [PInt 1])) \<and> \<not> isinstance_gdf (Value (PList [PInt 1])) \<and>
   config_to_file
     \<lparr>abspath = (\<lambda>p. p), can_open = (\<lambda>p. True), json_dump = (\<lambda>v. (None, [])),
      gdf_to_file = (\<lambda>g p fc. (None, fc)), gdf_str = (\<lambda>g. [])\<rparr>
     (Value (PList [PInt 1])) ''data'' \<lparr>file_contents = Map.empty, log_records = []\<rparr>
   = (None, \<lparr>file_contents = Map.empty, log_records = []\<rparr>)"
proof -
  have h1: "\<not> isinstance_dict (Value (PList [PInt 1]))" and h2: "\<not> isinstance_gdf (Value (PList [PInt 1]))"
    by simp_all
  show ?thesis
    using h1 h2 config_to_file_other [OF h1 h2] by blast
qed

section \<open>Properties of removing empty directories\<close>

text \<open>
  Claim C7. \<^verbatim>\<open>delete_empty_dirs\<close> removes exactly the subdirectories under the given
  root that are (transitively) empty. The code removes more: below \<^verbatim>\<open>work\<close>, which
  also holds a file, the directory \<^verbatim>\<open>work/root\<close> holds only \<^verbatim>\<open>a\<close>, which holds only
  the empty \<^verbatim>\<open>b\<close>; called on \<^verbatim>\<open>work/root\<close>, the function removes \<^verbatim>\<open>b\<close>, then \<^verbatim>\<open>a\<close>,
  and then \<^verbatim>\<open>work/root\<close> itself. Where \<^verbatim>\<open>a\<close> also holds a file, it removes only
  \<^verbatim>\<open>b\<close>.
\<close>

theorem delete_empty_dirs_removes_root:
  "delete_empty_dirs
     \<lparr>fs_dirs = [[''work''], [''work'', ''root''], [''work'', ''root'', ''a''],
                 [''work'', ''root'', ''a'', ''b'']],
      fs_files = [[''work'', ''notes.txt'']], rmdir_log = []\<rparr>
     [''work'', ''root'']
   = (None,
      \<lparr>fs_dirs = [[''work'']], fs_files = [[''work'', ''notes.txt'']],
       rmdir_log = [[''work'', ''root'', ''a'', ''b''], [''work'', ''root'', ''a''], [''work'', ''root'']]\<rparr>) \<and>
   delete_empty_dirs
     \<lparr>fs_dirs = [[''work''], [''work'', ''root''], [''work'', ''root'', ''a''],
                 [''work'', ''root'', ''a'', ''b'']],
      fs_files = [[''work'', ''root'', ''a'', ''f.txt'']], rmdir_log = []\<rparr>
     [''work'', ''root'']
   = (None,
      \<lparr>fs_dirs = [[''work''], [''work'', ''root''], [''work'', ''root'', ''a'']],
       fs_files = [[''work'', ''root'', ''a'', ''f.txt'']],
       rmdir_log = [[''work'', ''root'', ''a'', ''b'']]\<rparr>)"
  by code_simp

lemma rmdir_success:
  "p \<noteq> [] \<Longrightarrow> p \<in> set (fs_dirs fs) \<Longrightarrow> entries fs p = [] \<Longrightarrow>
   rmdir fs p = Inr (fs\<lparr>fs_dirs := removeAll p (fs_dirs fs), rmdir_log := rmdir_log fs @ [p]\<rparr>)"
  by (simp add: rmdir_def)

lemma rmdir_fail: "entries fs p \<noteq> [] \<Longrightarrow> rmdir fs p = Inl OSError"
  by (simp add: rmdir_def)

lemma rmdir_Inr_D:
  "rmdir fs p = Inr fs' \<Longrightarrow>
   fs_dirs fs' = removeAll p (fs_dirs fs) \<and> fs_files fs' = fs_files fs"
  by (auto simp: rmdir_def split: if_splits)

lemma prune_dirs_subset: "set (fs_dirs (prune fs h)) \<subseteq> set (fs_dirs fs)"
proof (induction fs h rule: prune.induct)
  case (1 fs h)
  show ?case
  proof (cases "h = []")
    case True
    then show ?thesis by (simp add: prune.simps)
  next
    case False
    show ?thesis
    proof (cases "rmdir fs h")
      case (Inl e)
      with False show ?thesis by (simp add: prune.simps [of fs h])
    next
      case (Inr fs')
      with False have "prune fs h = prune fs' (butlast h)"
        by (simp add: prune.simps [of fs h])
      moreover have "set (fs_dirs (prune fs' (butlast h))) \<subseteq> set (fs_dirs fs')"
        using False Inr by (rule "1.IH")
      moreover have "set (fs_dirs fs') \<subseteq> set (fs_dirs fs)"
        using rmdir_Inr_D [OF Inr] by auto
      ultimately show ?thesis by auto
    qed
  qed
qed

lemma entries_after_rmdir:
  assumes "h \<notin> set (fs_files fs)"
  shows "entries (fs\<lparr>fs_dirs := removeAll h (fs_dirs fs), rmdir_log := l\<rparr>) p = removeAll h (entries fs p)"
proof -
  have "filter (\<lambda>x. x \<noteq> [] \<and> butlast x = p \<and> h \<noteq> x) (fs_files fs)
      = filter (\<lambda>q. q \<noteq> [] \<and> butlast q = p) (fs_files fs)"
    using assms by (intro filter_cong) auto
  moreover have "filter (\<lambda>x. x \<noteq> [] \<and> butlast x = p \<and> h \<noteq> x) (fs_dirs fs)
      = filter (\<lambda>x. h \<noteq> x \<and> x \<noteq> [] \<and> butlast x = p) (fs_dirs fs)"
    by (intro filter_cong) auto
  ultimately show ?thesis
    by (simp add: entries_def removeAll_filter_not_eq)
qed

lemma filter_err_all:
  "(\<And>x. x \<in> set xs \<Longrightarrow> f x = Inr True) \<Longrightarrow> filter_err f xs = Inr xs"
  by (induction xs) auto

lemma child_dirs_subset_entries: "set (child_dirs fs p) \<subseteq> set (entries fs p)"
  by (auto simp: child_dirs_def entries_def)

lemma child_dirs_Nil: "entries fs p = [] \<Longrightarrow> child_dirs fs p = []"
  using child_dirs_subset_entries [of fs p] by auto

lemma walk_subdirs_leaf: "entries fs p = [] \<Longrightarrow> walk_subdirs fs p = []"
  by (simp add: walk_subdirs.simps [of fs p] child_dirs_Nil)

lemma walk_subdirs_flat:
  assumes "is_dir fs p" "\<forall>q \<in> set (entries fs p). entries fs q = []"
  shows "walk_subdirs fs p = child_dirs fs p"
proof -
  have "walk_subdirs fs q = []" if "q \<in> set (child_dirs fs p)" for q
    using that assms(2) child_dirs_subset_entries [of fs p] by (auto intro: walk_subdirs_leaf)
  then have "concat (map (walk_subdirs fs) (child_dirs fs p)) = []"
    by simp
  with assms(1) show ?thesis
    by (simp add: walk_subdirs.simps [of fs p])
qed


lemma prefix_in_dirs:
  assumes "wf_fs fs"
  shows "r \<in> set (fs_dirs fs) \<Longrightarrow> prefix p r \<Longrightarrow> p \<noteq> [] \<Longrightarrow> p \<in> set (fs_dirs fs)"
proof (induction r rule: rev_induct)
  case Nil
  then show ?case by simp
next
  case (snoc x r)
  show ?case
  proof (cases "p = r @ [x]")
    case True
    with snoc.prems show ?thesis by simp
  next
    case False
    with snoc.prems(2) have pr: "prefix p r"
      by (simp add: prefix_snoc)
    with snoc.prems(3) have "r \<noteq> []" by auto
    moreover have "\<forall>q \<in> set (fs_dirs fs @ fs_files fs). is_dir fs (butlast q)"
      using assms by (simp add: wf_fs_def list_all_iff)
    then have "is_dir fs (butlast (r @ [x]))"
      using snoc.prems(1) by (auto dest!: bspec [where x = "r @ [x]"])
    ultimately have "r \<in> set (fs_dirs fs)"
      by (simp add: is_dir_def)
    then show ?thesis
      using pr snoc.prems(3) by (rule snoc.IH)
  qed
qed

text \<open>The loop over the children of a directory whose entries are all empty directories.\<close>

lemma remove_each_children:
  assumes "distinct ds" "ds \<noteq> []" "base \<noteq> []" "base \<in> set (fs_dirs fs)"
    and "set (entries fs base) = set ds"
    and "\<forall>d \<in> set ds. d \<in> set (fs_dirs fs) \<and> d \<notin> set (fs_files fs) \<and> entries fs d = [] \<and> d \<noteq> [] \<and> butlast d = base"
  shows "\<exists>F. remove_each fs ds = (None, prune F (butlast base)) \<and>
      fs_dirs F = filter (\<lambda>p. p \<notin> set ds \<and> p \<noteq> base) (fs_dirs fs) \<and> fs_files F = fs_files fs"
  using assms
proof (induction ds arbitrary: fs)
  case Nil
  then show ?case by simp
next
  case (Cons d ds)
  let ?fs1 = "fs\<lparr>fs_dirs := removeAll d (fs_dirs fs), rmdir_log := rmdir_log fs @ [d]\<rparr>"
  from Cons.prems have d: "d \<in> set (fs_dirs fs)" "d \<notin> set (fs_files fs)" "entries fs d = []" "d \<noteq> []" "butlast d = base"
    by auto
  have dr: "d \<noteq> base"
    using d(4,5) by (metis append_butlast_last_id append_self_conv list.distinct(1))
  have rm: "rmdir fs d = Inr ?fs1"
    using d by (intro rmdir_success)
  have ent: "entries ?fs1 p = removeAll d (entries fs p)" for p
    using d(2) by (rule entries_after_rmdir)
  have base1: "base \<in> set (fs_dirs ?fs1)"
    using Cons.prems(4) dr by simp
  have ent_base: "set (entries ?fs1 base) = set ds"
    using Cons.prems(1,5) by (auto simp: ent)
  show ?case
  proof (cases "ds = []")
    case True
    let ?fs2 = "?fs1\<lparr>fs_dirs := removeAll base (fs_dirs ?fs1), rmdir_log := rmdir_log ?fs1 @ [base]\<rparr>"
    have "entries ?fs1 base = []"
      using ent_base True by simp
    then have "rmdir ?fs1 base = Inr ?fs2"
      using Cons.prems(3) base1 by (intro rmdir_success)
    then have "prune ?fs1 base = prune ?fs2 (butlast base)"
      using Cons.prems(3) by (simp add: prune.simps [of ?fs1 base])
    then have "remove_each fs (d # ds) = (None, prune ?fs2 (butlast base))"
      using rm d(5) True by (simp add: removedirs_def)
    moreover have "fs_dirs ?fs2 = filter (\<lambda>p. p \<notin> set (d # ds) \<and> p \<noteq> base) (fs_dirs fs)"
      using True by (auto simp: removeAll_filter_not_eq intro: filter_cong)
    moreover have "fs_files ?fs2 = fs_files fs"
      by simp
    ultimately show ?thesis by blast
  next
    case False
    then have "entries ?fs1 base \<noteq> []"
      using ent_base by auto
    then have "rmdir ?fs1 base = Inl OSError"
      by (rule rmdir_fail)
    then have "prune ?fs1 base = ?fs1"
      using Cons.prems(3) by (simp add: prune.simps [of ?fs1 base])
    then have step: "remove_each fs (d # ds) = remove_each ?fs1 ds"
      using rm d(5) by (simp add: removedirs_def)
    have "\<exists>F. remove_each ?fs1 ds = (None, prune F (butlast base)) \<and>
      fs_dirs F = filter (\<lambda>p. p \<notin> set ds \<and> p \<noteq> base) (fs_dirs ?fs1) \<and> fs_files F = fs_files ?fs1"
    proof (rule Cons.IH)
      show "distinct ds" using Cons.prems(1) by simp
      show "ds \<noteq> []" by (rule False)
      show "base \<noteq> []" by (rule Cons.prems(3))
      show "base \<in> set (fs_dirs ?fs1)" by (rule base1)
      show "set (entries ?fs1 base) = set ds" by (rule ent_base)
      show "\<forall>d' \<in> set ds. d' \<in> set (fs_dirs ?fs1) \<and> d' \<notin> set (fs_files ?fs1) \<and> entries ?fs1 d' = [] \<and> d' \<noteq> [] \<and> butlast d' = base"
        using Cons.prems(1,6) by (auto simp: ent)
    qed
    then obtain F where F: "remove_each ?fs1 ds = (None, prune F (butlast base))"
      "fs_dirs F = filter (\<lambda>p. p \<notin> set ds \<and> p \<noteq> base) (fs_dirs ?fs1)" "fs_files F = fs_files ?fs1"
      by blast
    have "fs_dirs F = filter (\<lambda>p. p \<notin> set (d # ds) \<and> p \<noteq> base) (fs_dirs fs)"
      using F(2) by (auto simp: removeAll_filter_not_eq intro: filter_cong)
    with F step show ?thesis by auto
  qed
qed


text \<open>Pruning removes a chain of directories each of which holds only the next one.\<close>

lemma prune_chain:
  assumes "anc \<noteq> []" "prefix anc h"
    and "\<forall>p. prefix anc p \<and> prefix p h \<longrightarrow> p \<in> set (fs_dirs F) \<and> p \<notin> set (fs_files F)"
    and "entries F h = []"
    and "\<forall>p. prefix anc p \<and> strict_prefix p h \<longrightarrow> set (entries F p) = {take (Suc (length p)) h}"
  shows "anc \<notin> set (fs_dirs (prune F h))"
  using assms
proof (induction h arbitrary: F rule: rev_induct)
  case Nil
  then show ?case by simp
next
  case (snoc x h)
  let ?hx = "h @ [x]"
  let ?F1 = "F\<lparr>fs_dirs := removeAll ?hx (fs_dirs F), rmdir_log := rmdir_log F @ [?hx]\<rparr>"
  have hx: "?hx \<in> set (fs_dirs F)" "?hx \<notin> set (fs_files F)"
    using snoc.prems(2,3) by auto
  then have "rmdir F ?hx = Inr ?F1"
    using snoc.prems(4) by (intro rmdir_success) auto
  then have pr: "prune F ?hx = prune ?F1 h"
    by (simp add: prune.simps [of F ?hx])
  have ent: "entries ?F1 p = removeAll ?hx (entries F p)" for p
    using hx(2) by (rule entries_after_rmdir)
  show ?case
  proof (cases "anc = ?hx")
    case True
    then have "anc \<notin> set (fs_dirs ?F1)" by simp
    then show ?thesis
      using prune_dirs_subset [of ?F1 h] pr by auto
  next
    case False
    with snoc.prems(2) have ah: "prefix anc h"
      by (simp add: prefix_snoc)
    have "anc \<notin> set (fs_dirs (prune ?F1 h))"
    proof (rule snoc.IH)
      show "anc \<noteq> []" by (rule snoc.prems(1))
      show "prefix anc h" by (rule ah)
      show "\<forall>p. prefix anc p \<and> prefix p h \<longrightarrow> p \<in> set (fs_dirs ?F1) \<and> p \<notin> set (fs_files ?F1)"
      proof (intro allI impI)
        fix p assume p: "prefix anc p \<and> prefix p h"
        then have "prefix p ?hx" by (simp add: prefix_snoc)
        with p snoc.prems(3) have "p \<in> set (fs_dirs F) \<and> p \<notin> set (fs_files F)" by blast
        moreover have "p \<noteq> ?hx"
          using p by (auto dest: prefix_length_le)
        ultimately show "p \<in> set (fs_dirs ?F1) \<and> p \<notin> set (fs_files ?F1)" by simp
      qed
      have "set (entries F h) = {take (Suc (length h)) ?hx}"
        using snoc.prems(5) ah by (auto simp: strict_prefix_def)
      then have "set (entries ?F1 h) = {}"
        by (simp add: ent)
      then show "entries ?F1 h = []" by simp
      show "\<forall>p. prefix anc p \<and> strict_prefix p h \<longrightarrow> set (entries ?F1 p) = {take (Suc (length p)) h}"
      proof (intro allI impI)
        fix p assume p: "prefix anc p \<and> strict_prefix p h"
        then have lt: "length p < length h"
          by (metis prefix_length_less)
        have "strict_prefix h ?hx"
          by (simp add: strict_prefix_def)
        with p have "strict_prefix p ?hx"
          by (blast intro: prefix_order.less_trans)
        with p snoc.prems(5) have "set (entries F p) = {take (Suc (length p)) ?hx}" by blast
        moreover have "take (Suc (length p)) ?hx = take (Suc (length p)) h"
          using lt by simp
        moreover have "length (take (Suc (length p)) h) \<noteq> length ?hx"
          using lt by simp
        then have "take (Suc (length p)) h \<noteq> ?hx"
          by (auto dest: arg_cong [where f = length])
        ultimately show "set (entries ?F1 p) = {take (Suc (length p)) h}"
          by (simp add: ent)
      qed
    qed
    with pr show ?thesis by simp
  qed
qed


lemma entries_filtered:
  assumes "fs_dirs F = filter Q (fs_dirs fs)" "fs_files F = fs_files fs"
    and "\<forall>q \<in> set (fs_files fs). Q q"
  shows "entries F p = filter Q (entries fs p)"
proof -
  have "filter (\<lambda>x. x \<noteq> [] \<and> butlast x = p \<and> Q x) (fs_files fs)
      = filter (\<lambda>q. q \<noteq> [] \<and> butlast q = p) (fs_files fs)"
    using assms(3) by (intro filter_cong) auto
  moreover have "filter (\<lambda>x. Q x \<and> x \<noteq> [] \<and> butlast x = p) (fs_dirs fs)
      = filter (\<lambda>x. x \<noteq> [] \<and> butlast x = p \<and> Q x) (fs_dirs fs)"
    by (intro filter_cong) auto
  ultimately show ?thesis
    by (simp add: entries_def assms(1,2))
qed

text \<open>
  Claim C10. \<^verbatim>\<open>delete_empty_dirs\<close> may remove directories that are not
  subdirectories of its argument. In a well-formed file system, when the directory
  \<open>dir_path\<close> has at least one entry and each of its entries is an empty
  directory, the call raises nothing and afterwards \<open>dir_path\<close> itself is no
  longer a directory; neither is any ancestor \<open>anc\<close> named in the path from which
  a chain of directories with a single entry each leads down to \<open>dir_path\<close>.
\<close>

theorem delete_empty_dirs_prunes_root:
  assumes "wf_fs fs" "dir_path \<noteq> []" "dir_path \<in> set (fs_dirs fs)"
    and "entries fs dir_path \<noteq> []"
    and "\<forall>q \<in> set (entries fs dir_path). q \<in> set (fs_dirs fs) \<and> entries fs q = []"
  shows "\<exists>fs'. delete_empty_dirs fs dir_path = (None, fs') \<and> dir_path \<notin> set (fs_dirs fs') \<and>
     (\<forall>anc. anc \<noteq> [] \<and> strict_prefix anc dir_path \<and>
        (\<forall>p. prefix anc p \<and> strict_prefix p dir_path \<longrightarrow> length (entries fs p) = 1)
        \<longrightarrow> anc \<notin> set (fs_dirs fs'))"
proof -
  let ?ds = "entries fs dir_path"
  let ?Q = "\<lambda>p. p \<notin> set ?ds \<and> p \<noteq> dir_path"
  let ?h = "butlast dir_path"
  have dist: "distinct (fs_dirs fs)" and disj: "set (fs_dirs fs) \<inter> set (fs_files fs) = {}"
    using assms(1) by (auto simp: wf_fs_def)
  have ds_len: "length d = Suc (length dir_path)" "d \<noteq> []" "butlast d = dir_path" if "d \<in> set ?ds" for d
    using that by (auto simp: entries_def dest: arg_cong [where f = length])
  have no_file: "filter (\<lambda>q. q \<noteq> [] \<and> butlast q = dir_path) (fs_files fs) = []"
  proof -
    have "q \<notin> set (fs_files fs)" if "q \<in> set ?ds" for q
      using that assms(5) disj by auto
    then show ?thesis
      by (auto simp: entries_def filter_empty_conv)
  qed
  then have ds_child: "?ds = child_dirs fs dir_path"
    by (simp add: entries_def child_dirs_def)
  have ds_dist: "distinct ?ds"
    using dist by (simp add: ds_child child_dirs_def)
  have "is_dir fs dir_path"
    using assms(3) by (simp add: is_dir_def)
  then have sub: "get_subdirs fs dir_path = ?ds"
    using assms(5) by (simp add: get_subdirs_def walk_subdirs_flat ds_child)
  have keep: "filter_err (\<lambda>subdir. case listdir fs subdir of Inl e \<Rightarrow> Inl e
                                | Inr names \<Rightarrow> Inr (length names = 0)) ?ds = Inr ?ds"
    using assms(5) by (intro filter_err_all) (simp add: listdir_def is_dir_def)
  have run: "delete_empty_dirs fs dir_path = remove_each fs ?ds"
    by (simp add: delete_empty_dirs_def sub keep)
  have "\<exists>F. remove_each fs ?ds = (None, prune F (butlast dir_path)) \<and>
      fs_dirs F = filter ?Q (fs_dirs fs) \<and> fs_files F = fs_files fs"
  proof (rule remove_each_children)
    show "distinct ?ds" by (rule ds_dist)
    show "?ds \<noteq> []" by (rule assms(4))
    show "dir_path \<noteq> []" by (rule assms(2))
    show "dir_path \<in> set (fs_dirs fs)" by (rule assms(3))
    show "set ?ds = set ?ds" by simp
    show "\<forall>d \<in> set ?ds. d \<in> set (fs_dirs fs) \<and> d \<notin> set (fs_files fs) \<and> entries fs d = [] \<and>
        d \<noteq> [] \<and> butlast d = dir_path"
      using assms(5) disj ds_len by auto
  qed
  then obtain F where F: "remove_each fs ?ds = (None, prune F ?h)"
    "fs_dirs F = filter ?Q (fs_dirs fs)" "fs_files F = fs_files fs"
    by blast
  have Qfiles: "\<forall>q \<in> set (fs_files fs). ?Q q"
    using assms(3,5) disj by auto
  have entF: "entries F p = filter ?Q (entries fs p)" for p
    using F(2,3) Qfiles by (rule entries_filtered)
  have gone: "dir_path \<notin> set (fs_dirs (prune F ?h))"
    using prune_dirs_subset [of F ?h] F(2) by auto
  have anc_gone: "anc \<notin> set (fs_dirs (prune F ?h))"
    if anc: "anc \<noteq> []" "strict_prefix anc dir_path"
      and chain: "\<forall>p. prefix anc p \<and> strict_prefix p dir_path \<longrightarrow> length (entries fs p) = 1"
    for anc
  proof (rule prune_chain)
    show "anc \<noteq> []" by (rule anc(1))
    have dp: "dir_path = ?h @ [last dir_path]"
      using assms(2) by simp
    show ah: "prefix anc ?h"
      using anc(2) dp by (metis prefix_snoc strict_prefix_def)
    have hlt: "strict_prefix ?h dir_path"
      using dp by (metis prefixI strict_prefix_def append_self_conv list.distinct(1))
    have in_chain: "p \<noteq> [] \<and> strict_prefix p dir_path \<and> length p < length dir_path"
      if "prefix anc p" "prefix p ?h" for p
    proof -
      from that(1) anc(1) have "p \<noteq> []" by auto
      moreover from that(2) hlt have "strict_prefix p dir_path"
        by (rule prefix_order.le_less_trans)
      ultimately show ?thesis
        by (auto dest: prefix_length_less)
    qed
    show "\<forall>p. prefix anc p \<and> prefix p ?h \<longrightarrow> p \<in> set (fs_dirs F) \<and> p \<notin> set (fs_files F)"
    proof (intro allI impI)
      fix p assume "prefix anc p \<and> prefix p ?h"
      then have p: "p \<noteq> []" "strict_prefix p dir_path" "length p < length dir_path"
        using in_chain by auto
      then have "p \<in> set (fs_dirs fs)"
        using assms(1,3) by (auto intro: prefix_in_dirs simp: strict_prefix_def)
      moreover have "p \<notin> set ?ds"
        using p(3) ds_len(1) by auto
      moreover have "p \<noteq> dir_path"
        using p(3) by auto
      ultimately show "p \<in> set (fs_dirs F) \<and> p \<notin> set (fs_files F)"
        using disj by (auto simp: F(2,3))
    qed
    have one: "entries fs p = [c]"
      if "length (entries fs p) = 1" "c \<in> set (entries fs p)" for p c
      using that by (cases "entries fs p") auto
    have "dir_path \<in> set (entries fs ?h)"
      using assms(2,3) by (simp add: entries_def)
    moreover have "length (entries fs ?h) = 1"
      using chain ah hlt by blast
    ultimately have "entries fs ?h = [dir_path]"
      by (intro one)
    then show "entries F ?h = []"
      by (simp add: entF)
    show "\<forall>p. prefix anc p \<and> strict_prefix p ?h \<longrightarrow> set (entries F p) = {take (Suc (length p)) ?h}"
    proof (intro allI impI)
      fix p assume pp: "prefix anc p \<and> strict_prefix p ?h"
      then have p: "p \<noteq> []" "strict_prefix p dir_path" "length p < length dir_path"
        using in_chain by (auto simp: strict_prefix_def)
      from pp have plt: "length p < length ?h"
        by (auto dest: prefix_length_less)
      let ?c = "take (Suc (length p)) dir_path"
      have tp: "take (length p) dir_path = p"
        using p(2) by (auto simp: strict_prefix_def prefix_def)
      have c1: "?c \<noteq> []" using assms(2) by simp
      have "prefix ?c dir_path" by (rule take_is_prefix)
      then have c2: "?c \<in> set (fs_dirs fs)"
        using assms(1,3) c1 by (auto intro: prefix_in_dirs)
      have c3: "butlast ?c = p"
        using p(3) tp by (simp add: butlast_take)
      have "?c \<in> set (entries fs p)"
        using c1 c2 c3 by (simp add: entries_def)
      moreover have "length (entries fs p) = 1"
        using chain pp p(2) by blast
      ultimately have e: "entries fs p = [?c]"
        by (intro one)
      have clen: "length ?c = Suc (length p)"
        using p(3) by simp
      have "?c \<notin> set ?ds"
        using ds_len(1) [of ?c] clen p(3) by auto
      moreover have "?c \<noteq> dir_path"
        using clen plt by (auto dest: arg_cong [where f = length])
      ultimately have "entries F p = [?c]"
        by (simp add: entF e)
      moreover have "take (Suc (length p)) ?h = ?c"
        using plt by (simp add: take_butlast)
      ultimately show "set (entries F p) = {take (Suc (length p)) ?h}"
        by simp
    qed
  qed
  show ?thesis
    using run F(1) gone anc_gone by auto
qed


text \<open>
  Below \<^verbatim>\<open>home\<close>, which also holds a file, \<^verbatim>\<open>home/proj\<close> holds only \<^verbatim>\<open>data\<close>,
  which holds the empty directories \<^verbatim>\<open>x\<close> and \<^verbatim>\<open>y\<close>: called on
  \<^verbatim>\<open>home/proj/data\<close>, the function also removes \<^verbatim>\<open>home/proj/data\<close> and
  \<^verbatim>\<open>home/proj\<close>.
\<close>

theorem delete_empty_dirs_prunes_root_witness:
  "wf_fs \<lparr>fs_dirs = [[''home''], [''home'', ''proj''], [''home'', ''proj'', ''data''],
                      [''home'', ''proj'', ''data'', ''x''], [''home'', ''proj'', ''data'', ''y'']],
          fs_files = [[''home'', ''readme'']], rmdir_log = []\<rparr> \<and>
   (\<exists>fs'. delete_empty_dirs
       \<lparr>fs_dirs = [[''home''], [''home'', ''proj''], [''home'', ''proj'', ''data''],
                   [''home'', ''proj'', ''data'', ''x''], [''home'', ''proj'', ''data'', ''y'']],
        fs_files = [[''home'', ''readme'']], rmdir_log = []\<rparr>
       [''home'', ''proj'', ''data''] = (None, fs') \<and>
     [''home'', ''proj'', ''data''] \<notin> set (fs_dirs fs') \<and>
     [''home'', ''proj''] \<notin> set (fs_dirs fs'))"
proof -
  let ?fs = "\<lparr>fs_dirs = [[''home''], [''home'', ''proj''], [''home'', ''proj'', ''data''],
                      [''home'', ''proj'', ''data'', ''x''], [''home'', ''proj'', ''data'', ''y'']],
          fs_files = [[''home'', ''readme'']], rmdir_log = []\<rparr>"
  let ?d = "[''home'', ''proj'', ''data'']"
  have h1: "wf_fs ?fs"
    by code_simp
  have h2: "?d \<noteq> []" and h3: "?d \<in> set (fs_dirs ?fs)"
    by simp_all
  have h4: "entries ?fs ?d \<noteq> []"
    by code_simp
  have h5: "\<forall>q \<in> set (entries ?fs ?d). q \<in> set (fs_dirs ?fs) \<and> entries ?fs q = []"
    by code_simp
  have e: "length (entries ?fs [''home'', ''proj'']) = 1"
    by code_simp
  have chain: "\<forall>p. prefix [''home'', ''proj''] p \<and> strict_prefix p ?d \<longrightarrow> length (entries ?fs p) = 1"
  proof (intro allI impI)
    fix p assume "prefix [''home'', ''proj''] p \<and> strict_prefix p ?d"
    then have "p = [''home'', ''proj'']"
      by (auto simp: strict_prefix_def prefix_Cons)
    with e show "length (entries ?fs p) = 1" by simp
  qed
  have anc: "strict_prefix [''home'', ''proj''] ?d"
    by (simp add: strict_prefix_def)
  from delete_empty_dirs_prunes_root [OF h1 h2 h3 h4 h5]
  obtain fs' where fs': "delete_empty_dirs ?fs ?d = (None, fs')" "?d \<notin> set (fs_dirs fs')"
    "\<forall>anc. anc \<noteq> [] \<and> strict_prefix anc ?d \<and>
        (\<forall>p. prefix anc p \<and> strict_prefix p ?d \<longrightarrow> length (entries ?fs p) = 1)
        \<longrightarrow> anc \<notin> set (fs_dirs fs')"
    by blast
  from fs'(3) anc chain have "[''home'', ''proj''] \<notin> set (fs_dirs fs')"
    by blast
  with fs'(1,2) h1 show ?thesis
    by blast
qed

end
